theory Spec2Isabelle
  imports Main "HOL-Library.Word"
begin

unbundle bit_operations_syntax

section \<open>The reactor of system/gd/os/linux_generic/reactor.cc\<close>

text \<open>
  The development embeds \<^verbatim>\<open>reactor.cc\<close>: the wakeable \<^verbatim>\<open>Reactor::Event\<close>, the
  record \<^verbatim>\<open>Reactor::Reactable\<close> and the member functions of \<^verbatim>\<open>Reactor\<close>.  The
  object state, the heap of reactables and the part of the Linux kernel the file talks
  to (one epoll instance, eventfd counters) are explicit values that every function
  takes and returns.  A fatal \<^verbatim>\<open>ASSERT\<close> and every undefined behaviour of C++ the
  code can run into (use of a destroyed reactable, a null promise) is a value of type
  \<open>fault\<close>, returned as \<open>Inl\<close>.

  The reactor is shared between the thread inside \<^verbatim>\<open>Run\<close> and the threads that call
  the other member functions.  A member function is one atomic step where the code
  holds one lock throughout or touches only what the caller owns; \<^verbatim>\<open>Unregister\<close>,
  which takes two locks one after the other, is two steps.  \<^verbatim>\<open>Run\<close> takes a script
  that says which steps of other threads complete at which point of the loop, and
  what the kernel finds ready in each pass.
\<close>

subsection \<open>Constants and plain types\<close>

type_synonym fd = int
type_synonym ptr = nat
type_synonym u32 = "32 word"
type_synonym u64 = "64 word"

text \<open>The null pointer.\<close>

definition nullptr :: ptr where
  "nullptr = 0"

text \<open>The constants of the anonymous namespace, lines 35--37.\<close>

definition kEpollMaxEvents :: nat where
  "kEpollMaxEvents = 64"

definition kStopReactor :: u64 where
  "kStopReactor = push_bit 0 1"

definition kWaitForIdle :: u64 where
  "kWaitForIdle = push_bit 1 1"

text \<open>
  The event bits of \<^verbatim>\<open><sys/epoll.h>\<close>, with the values of the Linux ABI.  The header
  is not part of the repository.
\<close>

definition EPOLLIN :: u32 where
  "EPOLLIN = 0x001"

definition EPOLLOUT :: u32 where
  "EPOLLOUT = 0x004"

definition EPOLLERR :: u32 where
  "EPOLLERR = 0x008"

definition EPOLLHUP :: u32 where
  "EPOLLHUP = 0x010"

definition EPOLLRDHUP :: u32 where
  "EPOLLRDHUP = 0x2000"

datatype fault =
    AssertFailed
  | AlreadyRunning
  | UseAfterFree
  | DoubleFree
  | NullDeref
  | UninitialisedRead
  | PromiseAlreadySatisfied
  | BadAlloc

text \<open>Sequencing of steps that may fail: the first fault ends the computation.\<close>

definition bnd :: "fault + 'a \<Rightarrow> ('a \<Rightarrow> fault + 'b) \<Rightarrow> fault + 'b" where
  "bnd m f = (case m of Inl e \<Rightarrow> Inl e | Inr x \<Rightarrow> f x)"

subsection \<open>The kernel: eventfd counters\<close>

text \<open>
  \<^verbatim>\<open>eventfd_read\<close> on a non-blocking eventfd fails (EAGAIN) when the counter is zero.
  Otherwise, in semaphore mode it yields 1 and decrements the counter, and in the
  default mode it yields the whole counter and resets it to zero.  The result is the
  value read and the new counter.
\<close>

definition eventfd_read :: "bool \<Rightarrow> u64 \<Rightarrow> (u64 \<times> u64) option" where
  "eventfd_read semaphore c =
     (if c = 0 then None
      else if semaphore then Some (1, c - 1)
      else Some (c, 0))"

text \<open>
  \<^verbatim>\<open>eventfd_write\<close> adds the value to the counter.  The counter holds at most
  \<open>2^64 - 2\<close>; a write of \<open>2^64 - 1\<close> is invalid (EINVAL) and a write that would exceed
  the maximum fails on a non-blocking descriptor (EAGAIN).
\<close>

definition eventfd_write :: "u64 \<Rightarrow> u64 \<Rightarrow> u64 option" where
  "eventfd_write v c =
     (if v = - 1 then None
      else if unat c + unat v > 2 ^ 64 - 2 then None
      else Some (c + v))"

subsection \<open>Reactor::Event\<close>

text \<open>
  An \<^verbatim>\<open>Event\<close> owns one eventfd created with \<^verbatim>\<open>EFD_SEMAPHORE | EFD_NONBLOCK\<close> and
  counter 0.  \<open>fd_open\<close> says whether the descriptor \<^verbatim>\<open>pimpl_->fd_\<close> is still open:
  \<^verbatim>\<open>Close\<close> closes it without destroying the object, and every system call on a
  closed descriptor fails (EBADF).
\<close>

record event =
  fd_open :: bool
  counter :: u64

definition Event_new :: event where
  "Event_new = \<lparr>fd_open = True, counter = 0\<rparr>"

text \<open>Lines 63--66: true iff \<^verbatim>\<open>eventfd_read\<close> returned 0.\<close>

definition Event_Read :: "event \<Rightarrow> bool \<times> event" where
  "Event_Read e =
     (if \<not> fd_open e then (False, e)
      else case eventfd_read True (counter e) of
             None \<Rightarrow> (False, e)
           | Some (val, c) \<Rightarrow> (True, e\<lparr>counter := c\<rparr>))"

text \<open>Lines 70--74: read until a read fails.\<close>

function Event_Clear :: "event \<Rightarrow> event" where
  "Event_Clear e =
     (if \<not> fd_open e then e
      else case eventfd_read True (counter e) of
             None \<Rightarrow> e
           | Some (val, c) \<Rightarrow> Event_Clear (e\<lparr>counter := c\<rparr>))"
  by pat_completeness auto
termination
proof (relation "measure (\<lambda>e. unat (counter e))")
  show "wf (measure (\<lambda>e. unat (counter e)))"
    by simp
next
  fix e :: event and x2 :: "u64 \<times> u64" and val c :: u64
  assume r: "eventfd_read True (counter e) = Some x2" and x: "(val, c) = x2"
  from r x have nz: "counter e \<noteq> 0" and c: "c = counter e - 1"
    by (auto simp: eventfd_read_def split: if_splits)
  from nz have "unat (counter e - 1) < unat (counter e)"
    by (simp add: unat_minus_one unat_gt_0)
  with c show "(e\<lparr>counter := c\<rparr>, e) \<in> measure (\<lambda>e. unat (counter e))"
    by simp
qed

declare Event_Clear.simps [simp del]

text \<open>Lines 75--79: \<^verbatim>\<open>close\<close> fails on a descriptor that is not open.\<close>

definition Event_Close :: "event \<Rightarrow> fault + event" where
  "Event_Close e =
     (if \<not> fd_open e then Inl AssertFailed else Inr (e\<lparr>fd_open := False\<rparr>))"

text \<open>Lines 80--84: write 1; a failed write is fatal.\<close>

definition Event_Notify :: "event \<Rightarrow> fault + event" where
  "Event_Notify e =
     (if \<not> fd_open e then Inl AssertFailed
      else case eventfd_write 1 (counter e) of
             None \<Rightarrow> Inl AssertFailed
           | Some c \<Rightarrow> Inr (e\<lparr>counter := c\<rparr>))"

text \<open>\<open>n\<close> calls of \<^verbatim>\<open>Notify\<close> in a row, and \<open>k\<close> calls of \<^verbatim>\<open>Read\<close> with their results.\<close>

fun Notify_times :: "nat \<Rightarrow> event \<Rightarrow> fault + event" where
  "Notify_times 0 e = Inr e"
| "Notify_times (Suc n) e = bnd (Event_Notify e) (Notify_times n)"

fun Read_times :: "nat \<Rightarrow> event \<Rightarrow> bool list \<times> event" where
  "Read_times 0 e = ([], e)"
| "Read_times (Suc k) e =
     (case Event_Read e of (b, e') \<Rightarrow>
        (case Read_times k e' of (bs, e'') \<Rightarrow> (b # bs, e'')))"

subsection \<open>The kernel: one epoll instance\<close>

text \<open>
  The system calls are not code of the repository; they follow the Linux manual pages.
  The kernel state holds the descriptors that are open, the interest list of the one
  epoll instance, and the counter of every eventfd created in the default (not
  semaphore) mode.
\<close>

datatype errno = EBADF | EEXIST | ENOENT | EINVAL | EFAULT

datatype epoll_op = EPOLL_CTL_ADD | EPOLL_CTL_MOD | EPOLL_CTL_DEL

record epoll_event =
  events :: u32
  data :: ptr

record kernel =
  open_fds :: "fd set"
  interest :: "fd \<rightharpoonup> epoll_event"
  eventfds :: "fd \<rightharpoonup> u64"

definition epoll_ctl ::
    "kernel \<Rightarrow> fd \<Rightarrow> epoll_op \<Rightarrow> fd \<Rightarrow> epoll_event option \<Rightarrow> errno + kernel" where
  "epoll_ctl k epfd op f event =
     (if f \<notin> open_fds k \<or> epfd \<notin> open_fds k then Inl EBADF
      else if f = epfd then Inl EINVAL
      else case op of
          EPOLL_CTL_ADD \<Rightarrow>
            (case event of
               None \<Rightarrow> Inl EFAULT
             | Some ev \<Rightarrow>
                 (if interest k f \<noteq> None then Inl EEXIST
                  else Inr (k\<lparr>interest := (interest k)(f \<mapsto> ev)\<rparr>)))
        | EPOLL_CTL_MOD \<Rightarrow>
            (case event of
               None \<Rightarrow> Inl EFAULT
             | Some ev \<Rightarrow>
                 (if interest k f = None then Inl ENOENT
                  else Inr (k\<lparr>interest := (interest k)(f \<mapsto> ev)\<rparr>)))
        | EPOLL_CTL_DEL \<Rightarrow>
            (if interest k f = None then Inl ENOENT
             else Inr (k\<lparr>interest := (interest k)(f := None)\<rparr>)))"

text \<open>
  What \<^verbatim>\<open>epoll_wait\<close> returns.  The environment says which descriptors are ready,
  in the order of delivery, and with which conditions; the readiness of an eventfd is
  not the environment's choice but follows from its counter.  A descriptor is reported
  at most once, only while it is on the interest list, with the conditions it is
  watched for (error and hang-up are always reported) and with the user data stored
  for it.  At most \<open>kEpollMaxEvents\<close> events are returned.  The call fails (EBADF)
  when the epoll descriptor is not open; an interrupted call is retried by
  \<^verbatim>\<open>RUN_NO_INTR\<close> and does not show.
\<close>

fun first_reports :: "(fd \<times> u32) list \<Rightarrow> (fd \<times> u32) list" where
  "first_reports [] = []"
| "first_reports (x # xs) = x # first_reports (filter (\<lambda>y. fst y \<noteq> fst x) xs)"

definition deliver :: "kernel \<Rightarrow> fd \<times> u32 \<Rightarrow> epoll_event option" where
  "deliver k r =
     (case r of (f, cond) \<Rightarrow>
        (if f \<notin> open_fds k then None
         else case interest k f of
             None \<Rightarrow> None
           | Some ev \<Rightarrow>
               (let c = (case eventfds k f of
                           None \<Rightarrow> cond
                         | Some n \<Rightarrow> (if n \<noteq> 0 then EPOLLIN else 0)
                                      OR (if n \<noteq> - 2 then EPOLLOUT else 0));
                    rev = c AND (events ev OR EPOLLERR OR EPOLLHUP)
                in if rev = 0 then None else Some \<lparr>events = rev, data = data ev\<rparr>)))"

definition epoll_wait :: "kernel \<Rightarrow> fd \<Rightarrow> (fd \<times> u32) list \<Rightarrow> errno + epoll_event list" where
  "epoll_wait k epfd ready =
     (if epfd \<notin> open_fds k then Inl EBADF
      else Inr (take kEpollMaxEvents (List.map_filter (deliver k) (first_reports ready))))"

subsection \<open>Closures, reactables and the reactor object\<close>

text \<open>
  Modelled from the spec: the enumeration \<^verbatim>\<open>ReactOn\<close> of \<^verbatim>\<open>os/reactor.h\<close>, which is
  not among the sources; the spec gives its three directions.
\<close>

datatype react_on = REACT_ON_READ_ONLY | REACT_ON_WRITE_ONLY | REACT_ON_READ_WRITE

text \<open>
  A \<^verbatim>\<open>common::Closure\<close> is user code.  What matters to the reactor is which of its
  member functions that code calls, so a closure is the list of these calls, and
  \<open>None\<close> is the null closure.  The same calls are what other threads do to the
  reactor while the loop runs.  \<^verbatim>\<open>Unregister\<close> has two critical sections, one under
  the reactor's \<^verbatim>\<open>mutex_\<close> and one under the reactable's; a thread can be suspended
  between them, so each is a call of its own, and \<open>CallUnregister\<close> is the two with
  nothing in between.  \<open>CallRegister\<close> carries the two closures and the address the
  allocator returns, \<open>CallWaitForUnregisteredReactable\<close> the timeout and the
  environment's part of the wait.  \<open>CallWaitForIdle\<close> is \<^verbatim>\<open>WaitForIdle\<close> up to its
  write to the control channel.
\<close>

datatype call =
    CallStop
  | CallRegister fd "call list option" "call list option" ptr
  | CallUnregister ptr
  | CallUnregisterInvalidate ptr
  | CallUnregisterRemove ptr
  | CallWaitForUnregisteredReactable int "nat option"
  | CallModifyRegistration ptr react_on
  | CallWaitForIdle

type_synonym closure = "call list option"

text \<open>
  Lines 86--101.  Member names lose their trailing underscore, and \<^verbatim>\<open>fd_\<close> is
  \<open>rfd\<close>.  \<open>finished_promise\<close> holds the index of the promise's shared state in the
  table \<open>promises\<close> of the reactor state, \<open>None\<close> for the null pointer.
\<close>

record reactable =
  rfd :: fd
  on_read_ready :: closure
  on_write_ready :: closure
  is_executing :: bool
  removed :: bool
  finished_promise :: "nat option"

datatype log =
    NotRunning
  | InvalidOrUnregistered
  | UnknownControlValue u64
  | UnregisterTimedOut

text \<open>What an execution does that can be observed, in order.\<close>

datatype obs =
    ReadCallback ptr
  | WriteCallback ptr
  | Fulfilled nat
  | Allocated ptr
  | Destroyed ptr
  | Logged log

text \<open>
  The members of \<^verbatim>\<open>Reactor\<close> (declared in \<^verbatim>\<open>os/reactor.h\<close>, used throughout the
  file), followed by the world they refer to: the heap of reactables allocated by
  \<^verbatim>\<open>Register\<close>, the shared states of all promises (true once fulfilled), the
  kernel, and the observations so far.
\<close>

record reactor =
  epoll_fd :: fd
  control_fd :: fd
  is_running :: bool
  invalidation_list :: "ptr list"
  executing_reactable_finished :: "nat option"
  idle_promise :: "nat option"
  heap :: "ptr \<rightharpoonup> reactable"
  promises :: "bool list"
  kern :: kernel
  trace :: "obs list"

definition observe :: "obs \<Rightarrow> reactor \<Rightarrow> reactor" where
  "observe x s = s\<lparr>trace := trace s @ [x]\<rparr>"

text \<open>\<^verbatim>\<open>std::promise\<close>: a new shared state, and \<^verbatim>\<open>set_value\<close>.\<close>

definition make_promise :: "reactor \<Rightarrow> nat \<times> reactor" where
  "make_promise s = (length (promises s), s\<lparr>promises := promises s @ [False]\<rparr>)"

definition set_value :: "nat \<Rightarrow> reactor \<Rightarrow> fault + reactor" where
  "set_value i s =
     (if \<not> i < length (promises s) then Inl UseAfterFree
      else if promises s ! i then Inl PromiseAlreadySatisfied
      else Inr (observe (Fulfilled i) (s\<lparr>promises := (promises s)[i := True]\<rparr>)))"

text \<open>
  \<^verbatim>\<open>std::future::wait_for\<close>: ready at once when the shared state is fulfilled;
  otherwise the environment says after how many milliseconds the reactor thread
  fulfils it (\<open>None\<close>: never), and the wait is ready iff that is within the timeout.
\<close>

definition wait_for :: "reactor \<Rightarrow> nat \<Rightarrow> int \<Rightarrow> nat option \<Rightarrow> bool" where
  "wait_for s i timeout fulfilled_after =
     ((i < length (promises s) \<and> promises s ! i)
      \<or> (case fulfilled_after of None \<Rightarrow> False | Some d \<Rightarrow> int d \<le> timeout))"

text \<open>\<^verbatim>\<open>delete reactable\<close>.\<close>

definition delete_reactable :: "ptr \<Rightarrow> reactor \<Rightarrow> fault + reactor" where
  "delete_reactable p s =
     (case heap s p of
        None \<Rightarrow> Inl DoubleFree
      | Some r \<Rightarrow> Inr (observe (Destroyed p) (s\<lparr>heap := (heap s)(p := None)\<rparr>)))"

text \<open>A write to the control channel whose failure is fatal (lines 208--209, 287--288).\<close>

definition control_write :: "u64 \<Rightarrow> reactor \<Rightarrow> fault + reactor" where
  "control_write v s =
     (case eventfds (kern s) (control_fd s) of
        None \<Rightarrow> Inl AssertFailed
      | Some c \<Rightarrow>
          (case eventfd_write v c of
             None \<Rightarrow> Inl AssertFailed
           | Some c' \<Rightarrow>
               Inr (s\<lparr>kern := (kern s)\<lparr>eventfds := (eventfds (kern s))(control_fd s \<mapsto> c')\<rparr>\<rparr>)))"

text \<open>
  Lines 103--114.  \<open>epfd\<close> and \<open>cfd\<close> are what \<^verbatim>\<open>epoll_create1\<close> and \<^verbatim>\<open>eventfd\<close>
  returned, \<open>fds\<close> the descriptors the process has open besides.
\<close>

definition Reactor_new :: "fd \<Rightarrow> fd \<Rightarrow> fd set \<Rightarrow> fault + reactor" where
  "Reactor_new epfd cfd fds =
     (if epfd = - 1 then Inl AssertFailed
      else if cfd = - 1 then Inl AssertFailed
      else case epoll_ctl
                  \<lparr>open_fds = insert epfd (insert cfd fds), interest = Map.empty,
                   eventfds = [cfd \<mapsto> 0]\<rparr>
                  epfd EPOLL_CTL_ADD cfd (Some \<lparr>events = EPOLLIN, data = nullptr\<rparr>) of
             Inl e \<Rightarrow> Inl AssertFailed
           | Inr k \<Rightarrow>
               Inr \<lparr>epoll_fd = epfd, control_fd = cfd, is_running = False,
                    invalidation_list = [], executing_reactable_finished = None,
                    idle_promise = None, heap = Map.empty, promises = [], kern = k,
                    trace = []\<rparr>)"

subsection \<open>Stop, Register, Unregister, the waits, ModifyRegistration\<close>

text \<open>Lines 204--210.\<close>

definition Stop :: "reactor \<Rightarrow> fault + reactor" where
  "Stop s =
     control_write kStopReactor
       (if \<not> is_running s then observe (Logged NotRunning) s else s)"

text \<open>
  Lines 216--233.  \<open>p\<close> is the address \<^verbatim>\<open>new\<close> returns: not null and not the address
  of a live reactable, or there was no allocation.
\<close>

definition register_events :: "closure \<Rightarrow> closure \<Rightarrow> u32" where
  "register_events on_read on_write =
     (let t0 = 0;
          t1 = (if on_read \<noteq> None then t0 OR (EPOLLIN OR EPOLLRDHUP) else t0);
          t2 = (if on_write \<noteq> None then t1 OR EPOLLOUT else t1)
      in t2)"

definition Register ::
    "fd \<Rightarrow> closure \<Rightarrow> closure \<Rightarrow> ptr \<Rightarrow> reactor \<Rightarrow> fault + (ptr \<times> reactor)" where
  "Register f on_read on_write p s =
     (if p = nullptr \<or> heap s p \<noteq> None then Inl BadAlloc
      else case epoll_ctl (kern s) (epoll_fd s) EPOLL_CTL_ADD f
                  (Some \<lparr>events = register_events on_read on_write, data = p\<rparr>) of
             Inl e \<Rightarrow> Inl AssertFailed
           | Inr k \<Rightarrow>
               Inr (p, observe (Allocated p)
                         (s\<lparr>heap := (heap s)(p \<mapsto>
                               \<lparr>rfd = f, on_read_ready = on_read, on_write_ready = on_write,
                                is_executing = False, removed = False,
                                finished_promise = None\<rparr>),
                            kern := k\<rparr>)))"

text \<open>Lines 236--240: the critical section under the reactor's \<^verbatim>\<open>mutex_\<close>.\<close>

definition Unregister_invalidate :: "ptr \<Rightarrow> reactor \<Rightarrow> fault + reactor" where
  "Unregister_invalidate p s =
     (if p = nullptr then Inl AssertFailed
      else Inr (s\<lparr>invalidation_list := invalidation_list s @ [p]\<rparr>))"

text \<open>
  Lines 241--264: the critical section under the reactable's \<^verbatim>\<open>mutex_\<close> and the
  \<^verbatim>\<open>delete\<close> that follows it.  Locking the mutex of a destroyed reactable is a use
  after free.
\<close>

definition Unregister_remove :: "ptr \<Rightarrow> reactor \<Rightarrow> fault + reactor" where
  "Unregister_remove p s =
     (case heap s p of
        None \<Rightarrow> Inl UseAfterFree
      | Some r \<Rightarrow>
          bnd (case epoll_ctl (kern s) (epoll_fd s) EPOLL_CTL_DEL (rfd r) None of
                 Inl e \<Rightarrow>
                   (if e = ENOENT then Inr (observe (Logged InvalidOrUnregistered) s)
                    else Inl AssertFailed)
               | Inr k \<Rightarrow> Inr (s\<lparr>kern := k\<rparr>))
            (\<lambda>s1. if is_executing r then
                     (case make_promise s1 of (i, s2) \<Rightarrow>
                        Inr (s2\<lparr>heap := (heap s2)(p \<mapsto>
                                   r\<lparr>removed := True, finished_promise := Some i\<rparr>),
                                executing_reactable_finished := Some i\<rparr>))
                   else delete_reactable p s1))"

definition Unregister :: "ptr \<Rightarrow> reactor \<Rightarrow> fault + reactor" where
  "Unregister p s = bnd (Unregister_invalidate p s) (Unregister_remove p)"

text \<open>
  Lines 267--277.  The function has no fatal path, so it returns a plain pair.
  \<open>fulfilled_after\<close> is the environment's part of \<open>wait_for\<close>.
\<close>

definition WaitForUnregisteredReactable ::
    "int \<Rightarrow> nat option \<Rightarrow> reactor \<Rightarrow> bool \<times> reactor" where
  "WaitForUnregisteredReactable timeout fulfilled_after s =
     (case executing_reactable_finished s of
        None \<Rightarrow> (True, s)
      | Some i \<Rightarrow>
          (let ready = wait_for s i timeout fulfilled_after
           in (ready, if \<not> ready then observe (Logged UnregisterTimedOut) s else s)))"

text \<open>Lines 279--292; the first function is lines 280--288.\<close>

definition WaitForIdle_signal :: "reactor \<Rightarrow> fault + (nat \<times> reactor)" where
  "WaitForIdle_signal s =
     (case make_promise s of (i, s1) \<Rightarrow>
        bnd (control_write kWaitForIdle (s1\<lparr>idle_promise := Some i\<rparr>))
          (\<lambda>s2. Inr (i, s2)))"

definition WaitForIdle :: "int \<Rightarrow> nat option \<Rightarrow> reactor \<Rightarrow> fault + (bool \<times> reactor)" where
  "WaitForIdle timeout fulfilled_after s =
     bnd (WaitForIdle_signal s)
       (\<lambda>r. case r of (i, s1) \<Rightarrow> Inr (wait_for s1 i timeout fulfilled_after, s1))"

text \<open>Lines 294--311.\<close>

definition modify_events :: "react_on \<Rightarrow> u32" where
  "modify_events dir =
     (let t0 = 0;
          t1 = (if dir = REACT_ON_READ_ONLY \<or> dir = REACT_ON_READ_WRITE
                then t0 OR (EPOLLIN OR EPOLLRDHUP) else t0);
          t2 = (if dir = REACT_ON_WRITE_ONLY \<or> dir = REACT_ON_READ_WRITE
                then t1 OR EPOLLOUT else t1)
      in t2)"

definition ModifyRegistration :: "ptr \<Rightarrow> react_on \<Rightarrow> reactor \<Rightarrow> fault + reactor" where
  "ModifyRegistration p dir s =
     (if p = nullptr then Inl AssertFailed
      else case heap s p of
          None \<Rightarrow> Inl UseAfterFree
        | Some r \<Rightarrow>
            (case epoll_ctl (kern s) (epoll_fd s) EPOLL_CTL_MOD (rfd r)
                    (Some \<lparr>events = modify_events dir, data = p\<rparr>) of
               Inl e \<Rightarrow> Inl AssertFailed
             | Inr k \<Rightarrow> Inr (s\<lparr>kern := k\<rparr>)))"

subsection \<open>Calls made by closures and by other threads\<close>

fun exec_call :: "call \<Rightarrow> reactor \<Rightarrow> fault + reactor" where
  "exec_call CallStop s = Stop s"
| "exec_call (CallRegister f on_read on_write p) s =
     bnd (Register f on_read on_write p s) (\<lambda>r. Inr (snd r))"
| "exec_call (CallUnregister p) s = Unregister p s"
| "exec_call (CallUnregisterInvalidate p) s = Unregister_invalidate p s"
| "exec_call (CallUnregisterRemove p) s = Unregister_remove p s"
| "exec_call (CallWaitForUnregisteredReactable timeout fulfilled_after) s =
     Inr (snd (WaitForUnregisteredReactable timeout fulfilled_after s))"
| "exec_call (CallModifyRegistration p dir) s = ModifyRegistration p dir s"
| "exec_call CallWaitForIdle s = bnd (WaitForIdle_signal s) (\<lambda>r. Inr (snd r))"

fun run_calls :: "call list \<Rightarrow> reactor \<Rightarrow> fault + reactor" where
  "run_calls [] s = Inr s"
| "run_calls (c # cs) s = bnd (exec_call c s) (run_calls cs)"

subsection \<open>Reactor::Run\<close>

text \<open>
  The state of the loop between two events: \<^verbatim>\<open>Run\<close> has returned, or it goes on with
  the locals \<^verbatim>\<open>timeout_ms\<close> and \<^verbatim>\<open>waiting_for_idle\<close>.
\<close>

datatype loop = Stopped reactor | Running int bool reactor

text \<open>Lines 160--170: what the loop does with the value read from the control channel.\<close>

definition control_command :: "u64 \<Rightarrow> int \<Rightarrow> bool \<Rightarrow> reactor \<Rightarrow> loop" where
  "control_command v timeout_ms waiting_for_idle s =
     (if v AND kStopReactor \<noteq> 0 then Stopped (s\<lparr>is_running := False\<rparr>)
      else if v AND kWaitForIdle \<noteq> 0 then Running 30 True s
      else Running timeout_ms waiting_for_idle (observe (Logged (UnknownControlValue v)) s))"

text \<open>
  Lines 157--171.  The result of \<^verbatim>\<open>eventfd_read\<close> is not checked: after a failed
  read \<^verbatim>\<open>value\<close> is read uninitialised.
\<close>

definition control_event :: "int \<Rightarrow> bool \<Rightarrow> reactor \<Rightarrow> fault + loop" where
  "control_event timeout_ms waiting_for_idle s =
     (case eventfds (kern s) (control_fd s) of
        None \<Rightarrow> Inl UninitialisedRead
      | Some c \<Rightarrow>
          (case eventfd_read False c of
             None \<Rightarrow> Inl UninitialisedRead
           | Some (v, c') \<Rightarrow>
               Inr (control_command v timeout_ms waiting_for_idle
                      (s\<lparr>kern := (kern s)\<lparr>eventfds :=
                                    (eventfds (kern s))(control_fd s \<mapsto> c')\<rparr>\<rparr>))))"

text \<open>\<^verbatim>\<open>Closure::Run\<close>: the invocation is observed, then the closure's calls happen.\<close>

definition run_closure :: "obs \<Rightarrow> call list \<Rightarrow> reactor \<Rightarrow> fault + reactor" where
  "run_closure x body s = run_calls body (observe x s)"

text \<open>
  Lines 173--184: whether the event is skipped (\<^verbatim>\<open>continue\<close>), and the state,
  with \<open>is_executing\<close> set when it is not skipped.
\<close>

definition begin_event :: "ptr \<Rightarrow> reactor \<Rightarrow> fault + (bool \<times> reactor)" where
  "begin_event p s =
     (let s1 = s\<lparr>executing_reactable_finished := None\<rparr>
      in if p \<in> set (invalidation_list s1) then Inr (True, s1)
         else case heap s1 p of
             None \<Rightarrow> Inl UseAfterFree
           | Some r \<Rightarrow> Inr (False, s1\<lparr>heap := (heap s1)(p \<mapsto> r\<lparr>is_executing := True\<rparr>)\<rparr>))"

text \<open>Lines 185--187 and lines 188--190.\<close>

definition read_callback :: "u32 \<Rightarrow> ptr \<Rightarrow> reactor \<Rightarrow> fault + reactor" where
  "read_callback evs p s =
     (if evs AND (EPOLLIN OR EPOLLHUP OR EPOLLRDHUP OR EPOLLERR) \<noteq> 0 then
        (case heap s p of
           None \<Rightarrow> Inl UseAfterFree
         | Some r \<Rightarrow>
             (case on_read_ready r of
                None \<Rightarrow> Inr s
              | Some body \<Rightarrow> run_closure (ReadCallback p) body s))
      else Inr s)"

definition write_callback :: "u32 \<Rightarrow> ptr \<Rightarrow> reactor \<Rightarrow> fault + reactor" where
  "write_callback evs p s =
     (if evs AND EPOLLOUT \<noteq> 0 then
        (case heap s p of
           None \<Rightarrow> Inl UseAfterFree
         | Some r \<Rightarrow>
             (case on_write_ready r of
                None \<Rightarrow> Inr s
              | Some body \<Rightarrow> run_closure (WriteCallback p) body s))
      else Inr s)"

text \<open>Lines 191--199.\<close>

definition finish_event :: "ptr \<Rightarrow> reactor \<Rightarrow> fault + reactor" where
  "finish_event p s =
     (case heap s p of
        None \<Rightarrow> Inl UseAfterFree
      | Some r \<Rightarrow>
          (let s1 = s\<lparr>heap := (heap s)(p \<mapsto> r\<lparr>is_executing := False\<rparr>)\<rparr>
           in if removed r then
                (case finished_promise r of
                   None \<Rightarrow> Inl NullDeref
                 | Some i \<Rightarrow> bnd (set_value i s1) (delete_reactable p))
              else Inr s1))"

text \<open>Lines 172--199: one event whose user data is a reactable.\<close>

definition reactable_event :: "epoll_event \<Rightarrow> reactor \<Rightarrow> fault + reactor" where
  "reactable_event ev s =
     bnd (begin_event (data ev) s)
       (\<lambda>b. case b of (skip, s1) \<Rightarrow>
          if skip then Inr s1
          else bnd (read_callback (events ev) (data ev) s1)
                 (\<lambda>s2. bnd (write_callback (events ev) (data ev) s2)
                          (finish_event (data ev))))"

text \<open>
  Lines 152--200: the events of one batch.  \<open>css\<close> gives, for each entry of the batch,
  the calls other threads complete before the loop reaches that entry.
\<close>

fun process_batch ::
    "epoll_event list \<Rightarrow> call list list \<Rightarrow> int \<Rightarrow> bool \<Rightarrow> reactor \<Rightarrow> fault + loop" where
  "process_batch [] css timeout_ms waiting_for_idle s =
     Inr (Running timeout_ms waiting_for_idle s)"
| "process_batch (ev # evs) css timeout_ms waiting_for_idle s =
     (case run_calls (case css of [] \<Rightarrow> [] | cs # _ \<Rightarrow> cs) s of
        Inl e \<Rightarrow> Inl e
      | Inr s1 \<Rightarrow>
          (if events ev = 0 then Inl AssertFailed
           else if data ev = nullptr then
             (case control_event timeout_ms waiting_for_idle s1 of
                Inl e \<Rightarrow> Inl e
              | Inr (Stopped s2) \<Rightarrow> Inr (Stopped s2)
              | Inr (Running t w s2) \<Rightarrow> process_batch evs (tl css) t w s2)
           else
             (case reactable_event ev s1 of
                Inl e \<Rightarrow> Inl e
              | Inr s2 \<Rightarrow> process_batch evs (tl css) timeout_ms waiting_for_idle s2)))"

text \<open>Lines 144--150.\<close>

definition idle_check ::
    "nat \<Rightarrow> int \<Rightarrow> bool \<Rightarrow> reactor \<Rightarrow> fault + (int \<times> bool \<times> reactor)" where
  "idle_check count timeout_ms waiting_for_idle s =
     (if waiting_for_idle \<and> count = 0 then
        (case idle_promise s of
           None \<Rightarrow> Inl NullDeref
         | Some i \<Rightarrow>
             bnd (set_value i s) (\<lambda>s1. Inr (- 1, False, s1\<lparr>idle_promise := None\<rparr>)))
      else Inr (timeout_ms, waiting_for_idle, s))"

text \<open>
  One pass of the loop, as the environment shapes it: the calls other threads complete
  before the loop clears the invalidation list, those they complete while the loop is
  inside \<^verbatim>\<open>epoll_wait\<close>, the descriptors the kernel then finds ready, and the calls
  completed before each entry of the batch is reached.  Calls of other threads during
  a callback are part of that callback's closure.
\<close>

record pass =
  before_clear :: "call list"
  during_wait :: "call list"
  ready :: "(fd \<times> u32) list"
  between :: "call list list"

text \<open>
  How \<^verbatim>\<open>Run\<close> ends on a finite script of passes: it returns, it is still inside the
  loop when the script is over, or the process dies.  A failed \<^verbatim>\<open>epoll_wait\<close> is
  fatal (lines 142--143).  With the infinite timeout \<^verbatim>\<open>epoll_wait\<close> does not return
  an empty batch: the loop stays blocked.
\<close>

datatype outcome = Returned reactor | Blocked reactor | Crashed fault

fun dispatch_loop :: "pass list \<Rightarrow> int \<Rightarrow> bool \<Rightarrow> reactor \<Rightarrow> outcome" where
  "dispatch_loop [] timeout_ms waiting_for_idle s = Blocked s"
| "dispatch_loop (p # ps) timeout_ms waiting_for_idle s =
     (case run_calls (before_clear p) s of
        Inl e \<Rightarrow> Crashed e
      | Inr s0 \<Rightarrow>
          (case run_calls (during_wait p) (s0\<lparr>invalidation_list := []\<rparr>) of
             Inl e \<Rightarrow> Crashed e
           | Inr s1 \<Rightarrow>
               (case epoll_wait (kern s1) (epoll_fd s1) (ready p) of
                  Inl e \<Rightarrow> Crashed AssertFailed
                | Inr batch \<Rightarrow>
                    (if batch = [] \<and> timeout_ms < 0 then Blocked s1
                     else case idle_check (length batch) timeout_ms waiting_for_idle s1 of
                         Inl e \<Rightarrow> Crashed e
                       | Inr (t, w, s2) \<Rightarrow>
                           (case process_batch batch (between p) t w s2 of
                              Inl e \<Rightarrow> Crashed e
                            | Inr (Stopped s3) \<Rightarrow> Returned s3
                            | Inr (Running t' w' s3) \<Rightarrow> dispatch_loop ps t' w' s3)))))"

text \<open>Lines 128--202.\<close>

definition Run :: "pass list \<Rightarrow> reactor \<Rightarrow> outcome" where
  "Run script s =
     (if is_running s then Crashed AlreadyRunning
      else dispatch_loop script (- 1) False (s\<lparr>is_running := True\<rparr>))"

subsection \<open>Vocabulary for the properties\<close>

text \<open>Whether an observation is the invocation of a callback.\<close>

fun is_callback :: "obs \<Rightarrow> bool" where
  "is_callback (ReadCallback p) = True"
| "is_callback (WriteCallback p) = True"
| "is_callback x = False"

text \<open>
  The life of the reactable address \<open>q\<close> along a trace: an allocation at \<open>q\<close> needs the
  address to be free, a destruction needs it to be live.  The result is whether the
  address is live at the end, or \<open>None\<close> when the trace allocates a live address or
  destroys a dead one.
\<close>

fun live_after :: "ptr \<Rightarrow> obs list \<Rightarrow> bool \<Rightarrow> bool option" where
  "live_after q [] b = Some b"
| "live_after q (x # t) b =
     (if x = Allocated q then (if b then None else live_after q t True)
      else if x = Destroyed q then (if b then live_after q t False else None)
      else live_after q t b)"

text \<open>
  Between \<open>s\<close> and a later state \<open>s'\<close> every address has an orderly life, from what
  the heap of \<open>s\<close> says to what the heap of \<open>s'\<close> says.
\<close>

definition lifecycle :: "reactor \<Rightarrow> reactor \<Rightarrow> bool" where
  "lifecycle s s' \<longleftrightarrow>
     (\<exists>t. trace s' = trace s @ t
        \<and> (\<forall>q. live_after q t (heap s q \<noteq> None) = Some (heap s' q \<noteq> None)))"

text \<open>
  What every call of a closure or of another thread leaves alone: the running flag,
  and of each reactable that is executing its descriptor, its closures and
  \<open>is_executing\<close>.  Such a call invokes no callback, destroys no reactable that is
  executing, and does not take back a deferred removal.
\<close>

definition call_frame :: "reactor \<Rightarrow> reactor \<Rightarrow> bool" where
  "call_frame s s' \<longleftrightarrow>
     lifecycle s s'
     \<and> is_running s' = is_running s
     \<and> (\<forall>x \<in> set (drop (length (trace s)) (trace s')). \<not> is_callback x)
     \<and> (\<forall>q r. heap s q = Some r \<and> is_executing r \<longrightarrow>
           Destroyed q \<notin> set (drop (length (trace s)) (trace s'))
           \<and> (\<exists>r'. heap s' q = Some r' \<and> is_executing r' \<and> rfd r' = rfd r
                 \<and> on_read_ready r' = on_read_ready r \<and> on_write_ready r' = on_write_ready r
                 \<and> (removed r \<and> finished_promise r \<noteq> None \<longrightarrow>
                        removed r' \<and> finished_promise r' \<noteq> None)))"

text \<open>
  The faults the dispatch loop and the calls made while it runs can end in.
\<close>

definition loop_faults :: "fault set" where
  "loop_faults =
     {AssertFailed, UseAfterFree, NullDeref, UninitialisedRead, PromiseAlreadySatisfied, BadAlloc}"

text \<open>What the dispatch loop leaves alone between two events, unless it stops.\<close>

definition loop_frame :: "reactor \<Rightarrow> reactor \<Rightarrow> bool" where
  "loop_frame s s' \<longleftrightarrow> lifecycle s s' \<and> is_running s' = is_running s"


text \<open>
  The callers' side of the contract.  \<^verbatim>\<open>Unregister\<close> and \<^verbatim>\<open>ModifyRegistration\<close> are
  called on a reactable that is registered and has not been unregistered before, and a
  call of \<^verbatim>\<open>Unregister\<close> runs its two critical sections with nothing in between,
  so that its halves are not calls of their own.  The other member functions ask
  nothing of their callers.
\<close>

fun obeys :: "call \<Rightarrow> reactor \<Rightarrow> bool" where
  "obeys (CallUnregister p) s = (case heap s p of None \<Rightarrow> False | Some r \<Rightarrow> \<not> removed r)"
| "obeys (CallModifyRegistration p dir) s =
     (case heap s p of None \<Rightarrow> False | Some r \<Rightarrow> \<not> removed r)"
| "obeys (CallUnregisterInvalidate p) s = False"
| "obeys (CallUnregisterRemove p) s = False"
| "obeys c s = True"

text \<open>Every call of a list keeps the contract, in the state in which it is made.\<close>

fun calls_obey :: "call list \<Rightarrow> reactor \<Rightarrow> bool" where
  "calls_obey [] s = True"
| "calls_obey (c # cs) s =
     (obeys c s \<and> (case exec_call c s of Inl e \<Rightarrow> True | Inr s' \<Rightarrow> calls_obey cs s'))"

text \<open>
  The same for the closures an event invokes, for the calls and closures of one batch
  and for those of a whole script.  Each definition follows the function of the loop it
  belongs to (\<open>read_callback\<close>, \<open>write_callback\<close>, \<open>reactable_event\<close>,
  \<open>process_batch\<close>, \<open>dispatch_loop\<close>, \<open>Run\<close>) and asks \<open>calls_obey\<close> of every list of
  calls that function runs, in the state in which it runs it.
\<close>

definition read_obeys :: "u32 \<Rightarrow> ptr \<Rightarrow> reactor \<Rightarrow> bool" where
  "read_obeys evs p s =
     (if evs AND (EPOLLIN OR EPOLLHUP OR EPOLLRDHUP OR EPOLLERR) \<noteq> 0 then
        (case heap s p of
           None \<Rightarrow> True
         | Some r \<Rightarrow>
             (case on_read_ready r of
                None \<Rightarrow> True
              | Some body \<Rightarrow> calls_obey body (observe (ReadCallback p) s)))
      else True)"

definition write_obeys :: "u32 \<Rightarrow> ptr \<Rightarrow> reactor \<Rightarrow> bool" where
  "write_obeys evs p s =
     (if evs AND EPOLLOUT \<noteq> 0 then
        (case heap s p of
           None \<Rightarrow> True
         | Some r \<Rightarrow>
             (case on_write_ready r of
                None \<Rightarrow> True
              | Some body \<Rightarrow> calls_obey body (observe (WriteCallback p) s)))
      else True)"

definition event_obeys :: "epoll_event \<Rightarrow> reactor \<Rightarrow> bool" where
  "event_obeys ev s =
     (case begin_event (data ev) s of
        Inl e \<Rightarrow> True
      | Inr (skip, s1) \<Rightarrow>
          skip \<or> (read_obeys (events ev) (data ev) s1
                  \<and> (case read_callback (events ev) (data ev) s1 of
                       Inl e \<Rightarrow> True
                     | Inr s2 \<Rightarrow> write_obeys (events ev) (data ev) s2)))"

fun batch_obeys ::
    "epoll_event list \<Rightarrow> call list list \<Rightarrow> int \<Rightarrow> bool \<Rightarrow> reactor \<Rightarrow> bool" where
  "batch_obeys [] css timeout_ms waiting_for_idle s = True"
| "batch_obeys (ev # evs) css timeout_ms waiting_for_idle s =
     (calls_obey (case css of [] \<Rightarrow> [] | cs # _ \<Rightarrow> cs) s
      \<and> (case run_calls (case css of [] \<Rightarrow> [] | cs # _ \<Rightarrow> cs) s of
           Inl e \<Rightarrow> True
         | Inr s1 \<Rightarrow>
             (if events ev = 0 then True
              else if data ev = nullptr then
                (case control_event timeout_ms waiting_for_idle s1 of
                   Inl e \<Rightarrow> True
                 | Inr (Stopped s2) \<Rightarrow> True
                 | Inr (Running t w s2) \<Rightarrow> batch_obeys evs (tl css) t w s2)
              else
                event_obeys ev s1
                \<and> (case reactable_event ev s1 of
                     Inl e \<Rightarrow> True
                   | Inr s2 \<Rightarrow> batch_obeys evs (tl css) timeout_ms waiting_for_idle s2))))"

fun loop_obeys :: "pass list \<Rightarrow> int \<Rightarrow> bool \<Rightarrow> reactor \<Rightarrow> bool" where
  "loop_obeys [] timeout_ms waiting_for_idle s = True"
| "loop_obeys (p # ps) timeout_ms waiting_for_idle s =
     (calls_obey (before_clear p) s
      \<and> (case run_calls (before_clear p) s of
           Inl e \<Rightarrow> True
         | Inr s0 \<Rightarrow>
             calls_obey (during_wait p) (s0\<lparr>invalidation_list := []\<rparr>)
             \<and> (case run_calls (during_wait p) (s0\<lparr>invalidation_list := []\<rparr>) of
                  Inl e \<Rightarrow> True
                | Inr s1 \<Rightarrow>
                    (case epoll_wait (kern s1) (epoll_fd s1) (ready p) of
                       Inl e \<Rightarrow> True
                     | Inr batch \<Rightarrow>
                         (if batch = [] \<and> timeout_ms < 0 then True
                          else case idle_check (length batch) timeout_ms waiting_for_idle s1 of
                              Inl e \<Rightarrow> True
                            | Inr (t, w, s2) \<Rightarrow>
                                batch_obeys batch (between p) t w s2
                                \<and> (case process_batch batch (between p) t w s2 of
                                     Inl e \<Rightarrow> True
                                   | Inr (Stopped s3) \<Rightarrow> True
                                   | Inr (Running t' w' s3) \<Rightarrow> loop_obeys ps t' w' s3))))))"

definition Run_obeys :: "pass list \<Rightarrow> reactor \<Rightarrow> bool" where
  "Run_obeys script s = loop_obeys script (- 1) False (s\<lparr>is_running := True\<rparr>)"

text \<open>
  The bookkeeping of the reactor between two steps, while the reactable at \<open>cur\<close> (if
  any) is inside its callbacks.  Every descriptor on the interest list whose user data
  is not null belongs to a live reactable that has this descriptor and has not been
  unregistered.  Exactly the reactable at \<open>cur\<close> is executing; only that reactable can
  have \<open>removed\<close> set, and then it is on the invalidation list.  The promises that
  reactables and the idle slot refer to exist.
\<close>

definition registry :: "ptr option \<Rightarrow> reactor \<Rightarrow> bool" where
  "registry cur s \<longleftrightarrow>
     (\<forall>f ev. interest (kern s) f = Some ev \<and> data ev \<noteq> nullptr \<longrightarrow>
        (\<exists>r. heap s (data ev) = Some r \<and> rfd r = f \<and> \<not> removed r))
     \<and> (\<forall>q r. heap s q = Some r \<longrightarrow>
          (is_executing r \<longleftrightarrow> cur = Some q)
          \<and> (removed r \<longrightarrow> cur = Some q \<and> q \<in> set (invalidation_list s))
          \<and> (\<forall>i. finished_promise r = Some i \<longrightarrow> i < length (promises s)))
     \<and> (\<forall>q. cur = Some q \<longrightarrow> heap s q \<noteq> None)
     \<and> (\<forall>i. idle_promise s = Some i \<longrightarrow> i < length (promises s))"

text \<open>
  An address the loop may meet in the batch at hand: it is on the invalidation list, or
  its reactable is live.
\<close>

definition covers :: "reactor \<Rightarrow> ptr \<Rightarrow> bool" where
  "covers s q \<longleftrightarrow> q \<in> set (invalidation_list s) \<or> heap s q \<noteq> None"

text \<open>The faults of touching or deleting a reactable that has been destroyed.\<close>

definition memory_fault :: "fault \<Rightarrow> bool" where
  "memory_fault e \<longleftrightarrow> e = UseAfterFree \<or> e = DoubleFree"

text \<open>Whether a call is \<^verbatim>\<open>Unregister\<close> of the reactable at \<open>p\<close>, or its second half.\<close>

fun unregisters :: "ptr \<Rightarrow> call \<Rightarrow> bool" where
  "unregisters p (CallUnregister q) = (q = p)"
| "unregisters p (CallUnregisterRemove q) = (q = p)"
| "unregisters p c = False"

text \<open>\<open>n\<close> calls of \<^verbatim>\<open>Stop\<close> in a row.\<close>

fun Stop_times :: "nat \<Rightarrow> reactor \<Rightarrow> fault + reactor" where
  "Stop_times 0 s = Inr s"
| "Stop_times (Suc n) s = bnd (Stop s) (Stop_times n)"

text \<open>Whether \<^verbatim>\<open>Run\<close> has returned.\<close>

fun returned :: "outcome \<Rightarrow> bool" where
  "returned (Returned s) = True"
| "returned (Blocked s) = False"
| "returned (Crashed e) = False"

text \<open>
  Two concrete states: a reactor as \<open>Reactor_new 3 4 {5}\<close> builds it, and the same
  reactor after \<open>Register 5 (Some []) None 1\<close>.
\<close>

definition fresh_reactor :: reactor where
  "fresh_reactor =
     \<lparr>epoll_fd = 3, control_fd = 4, is_running = False, invalidation_list = [],
      executing_reactable_finished = None, idle_promise = None, heap = Map.empty,
      promises = [],
      kern = \<lparr>open_fds = {3, 4, 5},
              interest = [4 \<mapsto> \<lparr>events = EPOLLIN, data = nullptr\<rparr>],
              eventfds = [4 \<mapsto> 0]\<rparr>,
      trace = []\<rparr>"

definition reader5 :: reactable where
  "reader5 =
     \<lparr>rfd = 5, on_read_ready = Some [], on_write_ready = None, is_executing = False,
      removed = False, finished_promise = None\<rparr>"

definition reactor_with_reader :: reactor where
  "reactor_with_reader =
     fresh_reactor
       \<lparr>heap := [1 \<mapsto> reader5], trace := [Allocated 1],
        kern := \<lparr>open_fds = {3, 4, 5},
                 interest = [4 \<mapsto> \<lparr>events = EPOLLIN, data = nullptr\<rparr>,
                             5 \<mapsto> \<lparr>events = EPOLLIN OR EPOLLRDHUP, data = 1\<rparr>],
                 eventfds = [4 \<mapsto> 0]\<rparr>\<rparr>"

text \<open>
  A reactable on descriptor 5 whose read closure unregisters it, with a write closure
  besides, and the reactor after \<open>Register 5 (Some [CallUnregister 1]) (Some []) 1\<close>.
\<close>

definition self_unregistering :: reactable where
  "self_unregistering =
     \<lparr>rfd = 5, on_read_ready = Some [CallUnregister 1], on_write_ready = Some [],
      is_executing = False, removed = False, finished_promise = None\<rparr>"

definition both_ways :: reactor where
  "both_ways =
     fresh_reactor
       \<lparr>heap := [1 \<mapsto> self_unregistering], trace := [Allocated 1],
        kern := \<lparr>open_fds = {3, 4, 5},
                 interest = [4 \<mapsto> \<lparr>events = EPOLLIN, data = nullptr\<rparr>,
                             5 \<mapsto> \<lparr>events = EPOLLIN OR EPOLLRDHUP OR EPOLLOUT, data = 1\<rparr>],
                 eventfds = [4 \<mapsto> 0]\<rparr>\<rparr>"

text \<open>
  Three passes.  In \<open>control_ready\<close> the kernel finds the control descriptor ready and
  no other thread does anything; in \<open>quiet\<close> nothing is ready.  In \<open>racing_unregister\<close>
  another thread is inside \<open>Unregister\<close> of the reactable at address 1: it completes the
  first critical section before the loop clears the invalidation list, the kernel then
  finds descriptor 5 readable, and the thread completes the second critical section
  before the loop reaches the event.
\<close>

definition control_ready :: pass where
  "control_ready = \<lparr>before_clear = [], during_wait = [], ready = [(4, EPOLLIN)], between = []\<rparr>"

definition quiet :: pass where
  "quiet = \<lparr>before_clear = [], during_wait = [], ready = [], between = []\<rparr>"

definition racing_unregister :: pass where
  "racing_unregister =
     \<lparr>before_clear = [CallUnregisterInvalidate 1], during_wait = [],
      ready = [(5, EPOLLIN)], between = [[CallUnregisterRemove 1]]\<rparr>"


definition both_ready :: pass where
  "both_ready =
     \<lparr>before_clear = [], during_wait = [], ready = [(5, EPOLLIN OR EPOLLOUT)], between = []\<rparr>"

definition unregister_before_entry :: pass where
  "unregister_before_entry =
     \<lparr>before_clear = [], during_wait = [], ready = [(5, EPOLLIN)],
      between = [[CallUnregister 1]]\<rparr>"

definition reused_address :: pass where
  "reused_address =
     \<lparr>before_clear = [], during_wait = [], ready = [(5, EPOLLIN)],
      between = [[CallUnregister 1, CallRegister 5 (Some []) None 1, CallUnregister 1]]\<rparr>"

section \<open>Properties\<close>

subsection \<open>The example states are what the code builds\<close>

lemma fresh_reactor_built: "Reactor_new 3 4 {5} = Inr fresh_reactor"
  by (simp add: Reactor_new_def epoll_ctl_def fresh_reactor_def)

lemma reactor_with_reader_built:
  "Register 5 (Some []) None 1 fresh_reactor = Inr (1, reactor_with_reader)"
  by (simp add: Register_def epoll_ctl_def fresh_reactor_def reactor_with_reader_def
      reader5_def register_events_def nullptr_def observe_def)

lemma both_ways_built:
  "Register 5 (Some [CallUnregister 1]) (Some []) 1 fresh_reactor = Inr (1, both_ways)"
  by (simp add: Register_def epoll_ctl_def fresh_reactor_def both_ways_def self_unregistering_def
      register_events_def nullptr_def observe_def ac_simps)

text \<open>The definitions a concrete run unfolds.\<close>

lemmas eval_defs =
  fresh_reactor_def reactor_with_reader_def reader5_def
  Run_def Stop_def control_write_def eventfd_write_def eventfd_read_def
  Unregister_def Unregister_invalidate_def Unregister_remove_def delete_reactable_def
  epoll_ctl_def epoll_wait_def deliver_def idle_check_def set_value_def make_promise_def
  control_event_def control_command_def reactable_event_def begin_event_def
  read_callback_def write_callback_def finish_event_def run_closure_def
  observe_def bnd_def nullptr_def kEpollMaxEvents_def kStopReactor_def kWaitForIdle_def
  EPOLLIN_def EPOLLOUT_def EPOLLERR_def EPOLLHUP_def EPOLLRDHUP_def Let_def

lemma both_ways_event:
  "\<exists>s'. reactable_event \<lparr>events = EPOLLIN OR EPOLLOUT, data = 1\<rparr> both_ways = Inr s'
     \<and> trace s' = [Allocated 1, ReadCallback 1, WriteCallback 1, Fulfilled 0, Destroyed 1]
     \<and> heap s' 1 = None"
  by (simp add: both_ways_def self_unregistering_def eval_defs)

subsection \<open>Event\<close>

lemma Event_Read_after_Clear: "Event_Read (Event_Clear e) = (False, Event_Clear e)"
proof (induction e rule: Event_Clear.induct)
  case (1 e)
  show ?case
  proof (cases "fd_open e \<and> counter e \<noteq> 0")
    case True
    then have "Event_Clear e = Event_Clear (e\<lparr>counter := counter e - 1\<rparr>)"
      by (subst Event_Clear.simps) (simp add: eventfd_read_def)
    moreover from True have "Event_Read (Event_Clear (e\<lparr>counter := counter e - 1\<rparr>))
        = (False, Event_Clear (e\<lparr>counter := counter e - 1\<rparr>))"
      by (intro "1.IH"[of "(1, counter e - 1)" 1 "counter e - 1"]) (simp_all add: eventfd_read_def)
    ultimately show ?thesis by simp
  next
    case False
    then have "Event_Clear e = e"
      by (subst Event_Clear.simps) (auto simp: eventfd_read_def)
    with False show ?thesis
      by (auto simp: Event_Read_def eventfd_read_def)
  qed
qed

lemma Read_times_after_Clear:
  "Read_times k (Event_Clear e) = (replicate k False, Event_Clear e)"
  by (induction k) (simp_all add: Event_Read_after_Clear)

lemma Event_Clear_counter: "fd_open e \<Longrightarrow> Event_Clear e = e\<lparr>counter := 0\<rparr>"
proof (induction e rule: Event_Clear.induct)
  case (1 e)
  show ?case
  proof (cases "counter e = 0")
    case True
    with "1.prems" show ?thesis
      by (subst Event_Clear.simps) (simp add: eventfd_read_def)
  next
    case False
    with "1.prems" have "Event_Clear e = Event_Clear (e\<lparr>counter := counter e - 1\<rparr>)"
      by (subst Event_Clear.simps) (simp add: eventfd_read_def)
    moreover from False "1.prems" have "Event_Clear (e\<lparr>counter := counter e - 1\<rparr>)
        = (e\<lparr>counter := counter e - 1\<rparr>)\<lparr>counter := 0\<rparr>"
      by (intro "1.IH"[of "(1, counter e - 1)" 1 "counter e - 1"]) (simp_all add: eventfd_read_def)
    ultimately show ?thesis by simp
  qed
qed

lemma Event_Read_positive:
  "fd_open e \<Longrightarrow> counter e \<noteq> 0 \<Longrightarrow> Event_Read e = (True, e\<lparr>counter := counter e - 1\<rparr>)"
  by (simp add: Event_Read_def eventfd_read_def)

lemma Event_Read_zero: "counter e = 0 \<Longrightarrow> Event_Read e = (False, e)"
  by (simp add: Event_Read_def eventfd_read_def)

lemma unat_decrement: "(c::u64) \<noteq> 0 \<Longrightarrow> unat (c - 1) + 1 = unat c"
  by (simp add: unat_minus_one unat_gt_0 Suc_leI)

lemma Event_Notify_open: "Event_Notify e = Inr e' \<Longrightarrow> fd_open e'"
  by (auto simp: Event_Notify_def split: if_splits option.splits)

lemma Notify_times_open: "Notify_times n e = Inr e' \<Longrightarrow> fd_open e \<Longrightarrow> fd_open e'"
proof (induction n arbitrary: e)
  case 0
  then show ?case by simp
next
  case (Suc n)
  then show ?case
    by (auto simp: bnd_def split: sum.splits dest: Event_Notify_open)
qed

text \<open>
  C6.  On an event whose descriptor is open, \<^verbatim>\<open>Read\<close> returns true and decrements the
  counter by one when the counter is positive, and returns false, changing nothing,
  when the counter is zero.  After any number \<open>n\<close> of \<^verbatim>\<open>Notify\<close> calls followed by
  \<^verbatim>\<open>Clear\<close> the counter is zero, and any number \<open>k\<close> of \<^verbatim>\<open>Read\<close> calls that follow
  (with no \<^verbatim>\<open>Notify\<close> in between) all return false.
\<close>

theorem Event_Read_Clear:
  "fd_open e \<Longrightarrow>
     (counter e \<noteq> 0 \<longrightarrow>
        Event_Read e = (True, e\<lparr>counter := counter e - 1\<rparr>)
        \<and> unat (counter e - 1) + 1 = unat (counter e))
   \<and> (counter e = 0 \<longrightarrow> Event_Read e = (False, e))
   \<and> (Notify_times n e = Inr e' \<longrightarrow>
        counter (Event_Clear e') = 0
        \<and> Read_times k (Event_Clear e') = (replicate k False, Event_Clear e'))"
proof (intro conjI impI)
  assume o: "fd_open e"
  { assume "counter e \<noteq> 0"
    with o show "Event_Read e = (True, e\<lparr>counter := counter e - 1\<rparr>)"
      by (rule Event_Read_positive)
  next
    assume "counter e \<noteq> 0"
    then show "unat (counter e - 1) + 1 = unat (counter e)"
      by (rule unat_decrement)
  next
    assume "counter e = 0"
    then show "Event_Read e = (False, e)"
      by (rule Event_Read_zero)
  next
    assume "Notify_times n e = Inr e'"
    with o have "fd_open e'"
      by (auto dest: Notify_times_open)
    then show "counter (Event_Clear e') = 0"
      by (simp add: Event_Clear_counter)
  next
    show "Read_times k (Event_Clear e') = (replicate k False, Event_Clear e')"
      by (rule Read_times_after_Clear)
  }
qed

text \<open>Both cases of \<^verbatim>\<open>Read\<close>, and two notifications cleared and then read three times.\<close>

theorem Event_Read_Clear_witness:
  "Event_Read \<lparr>fd_open = True, counter = 2\<rparr> = (True, \<lparr>fd_open = True, counter = 1\<rparr>)
   \<and> Event_Read Event_new = (False, Event_new)
   \<and> Notify_times 2 Event_new = Inr \<lparr>fd_open = True, counter = 2\<rparr>
   \<and> Read_times 3 (Event_Clear \<lparr>fd_open = True, counter = 2\<rparr>)
       = ([False, False, False], Event_Clear \<lparr>fd_open = True, counter = 2\<rparr>)"
proof -
  have "Notify_times (Suc (Suc 0)) Event_new = Inr \<lparr>fd_open = True, counter = 2\<rparr>"
    by (simp add: Event_new_def Event_Notify_def eventfd_write_def bnd_def)
  then have n: "Notify_times 2 Event_new = Inr \<lparr>fd_open = True, counter = 2\<rparr>"
    by (simp only: numeral_2_eq_2)
  have r: "replicate 3 False = [False, False, False]"
    by (simp add: numeral_3_eq_3)
  show ?thesis
    using Event_Read_Clear [of "\<lparr>fd_open = True, counter = 2\<rparr>" 0 "\<lparr>fd_open = True, counter = 2\<rparr>" 0]
      Event_Read_Clear [of Event_new 2 "\<lparr>fd_open = True, counter = 2\<rparr>" 3] n r
    by (simp add: Event_new_def)
qed

subsection \<open>The control channel\<close>

lemma stop_bit: "v AND kStopReactor \<noteq> 0 \<longleftrightarrow> bit v 0"
  unfolding kStopReactor_def by (simp only: bit_iff_and_push_bit_not_eq_0)

lemma idle_bit: "v AND kWaitForIdle \<noteq> 0 \<longleftrightarrow> bit v 1"
  unfolding kWaitForIdle_def by (simp only: bit_iff_and_push_bit_not_eq_0)

lemma observe_neq: "observe x s \<noteq> s"
proof
  assume "observe x s = s"
  then have "trace (observe x s) = trace s" by simp
  then show False by (simp add: observe_def)
qed

text \<open>
  C4, as the claim states it, fails at the value 3: its \<^verbatim>\<open>WAIT_FOR_IDLE\<close> bit is set,
  and the loop stops instead of switching to the short timeout.
\<close>

theorem control_command_wait_bit_counterexample:
  "bit (3 :: u64) 1
   \<and> control_command 3 (- 1) False fresh_reactor = Stopped (fresh_reactor\<lparr>is_running := False\<rparr>)"
  by (simp add: control_command_def kStopReactor_def kWaitForIdle_def)

text \<open>
  C4, amended.  The value read from the control channel is tested in an if / else-if /
  else chain: the loop performs the \<^verbatim>\<open>STOP\<close> action (clear the running flag, return)
  iff the \<^verbatim>\<open>STOP\<close> bit is set; it performs the \<^verbatim>\<open>WAIT_FOR_IDLE\<close> action (timeout 30,
  waiting-for-idle flag) iff the \<^verbatim>\<open>WAIT_FOR_IDLE\<close> bit is set and the \<^verbatim>\<open>STOP\<close> bit is
  not; it logs the value and goes on unchanged iff neither bit is set.
\<close>

theorem control_command_cases:
  "(control_command v t w s = Stopped (s\<lparr>is_running := False\<rparr>) \<longleftrightarrow> bit v 0)
   \<and> (control_command v t w s = Running 30 True s \<longleftrightarrow> bit v 1 \<and> \<not> bit v 0)
   \<and> (control_command v t w s = Running t w (observe (Logged (UnknownControlValue v)) s)
        \<longleftrightarrow> \<not> bit v 0 \<and> \<not> bit v 1)"
  using observe_neq [of "Logged (UnknownControlValue v)" s]
  by (auto simp: control_command_def stop_bit idle_bit)

subsection \<open>WaitForUnregisteredReactable\<close>

text \<open>
  C5.  With an empty executing-finished slot the call returns true at once and changes
  nothing.  Otherwise it waits on the stored observer: it returns true iff the
  completion signal is already fulfilled or is fulfilled within the timeout; when it
  returns false it has logged the timeout as an error.  It has no fatal path.
\<close>

theorem WaitForUnregisteredReactable_result:
  "(executing_reactable_finished s = None \<longrightarrow>
      WaitForUnregisteredReactable timeout fulfilled_after s = (True, s))
   \<and> (executing_reactable_finished s = Some i \<longrightarrow>
        fst (WaitForUnregisteredReactable timeout fulfilled_after s)
          = ((i < length (promises s) \<and> promises s ! i)
             \<or> (\<exists>d. fulfilled_after = Some d \<and> int d \<le> timeout))
        \<and> snd (WaitForUnregisteredReactable timeout fulfilled_after s)
          = (if fst (WaitForUnregisteredReactable timeout fulfilled_after s) then s
             else observe (Logged UnregisterTimedOut) s))"
  by (auto simp: WaitForUnregisteredReactable_def wait_for_def Let_def split: option.splits)

text \<open>An empty slot, and a pending signal that is not fulfilled in time.\<close>

theorem WaitForUnregisteredReactable_result_witness:
  "WaitForUnregisteredReactable 1000 None fresh_reactor = (True, fresh_reactor)
   \<and> WaitForUnregisteredReactable 1000 (Some 2000)
         (fresh_reactor\<lparr>executing_reactable_finished := Some 0, promises := [False]\<rparr>)
       = (False, observe (Logged UnregisterTimedOut)
                   (fresh_reactor\<lparr>executing_reactable_finished := Some 0, promises := [False]\<rparr>))"
proof -
  have e: "executing_reactable_finished fresh_reactor = None"
    by (simp add: fresh_reactor_def)
  have p: "executing_reactable_finished
             (fresh_reactor\<lparr>executing_reactable_finished := Some 0, promises := [False]\<rparr>) = Some 0"
    by simp
  from WaitForUnregisteredReactable_result
      [where s = "fresh_reactor\<lparr>executing_reactable_finished := Some 0, promises := [False]\<rparr>"
         and i = 0 and timeout = 1000 and fulfilled_after = "Some 2000"] p
  have "WaitForUnregisteredReactable 1000 (Some 2000)
         (fresh_reactor\<lparr>executing_reactable_finished := Some 0, promises := [False]\<rparr>)
       = (False, observe (Logged UnregisterTimedOut)
                   (fresh_reactor\<lparr>executing_reactable_finished := Some 0, promises := [False]\<rparr>))"
    by (simp add: prod_eq_iff)
  with WaitForUnregisteredReactable_result
      [where s = fresh_reactor and i = 0 and timeout = 1000 and fulfilled_after = None] e
  show ?thesis
    by simp
qed

subsection \<open>Register and ModifyRegistration\<close>

lemma epoll_bits:
  "EPOLLIN AND EPOLLOUT = 0" "EPOLLRDHUP AND EPOLLOUT = 0" "EPOLLIN AND EPOLLRDHUP = 0"
  "EPOLLIN \<noteq> 0" "EPOLLOUT \<noteq> 0" "EPOLLRDHUP \<noteq> 0"
  by (simp_all add: EPOLLIN_def EPOLLOUT_def EPOLLRDHUP_def)

lemma register_events_bits:
  "(register_events on_read on_write AND EPOLLIN = EPOLLIN \<longleftrightarrow> on_read \<noteq> None)
   \<and> (register_events on_read on_write AND EPOLLRDHUP = EPOLLRDHUP \<longleftrightarrow> on_read \<noteq> None)
   \<and> (register_events on_read on_write AND EPOLLOUT = EPOLLOUT \<longleftrightarrow> on_write \<noteq> None)
   \<and> register_events on_read on_write AND NOT (EPOLLIN OR EPOLLRDHUP OR EPOLLOUT) = 0"
  by (simp add: register_events_def EPOLLIN_def EPOLLOUT_def EPOLLRDHUP_def)

text \<open>
  C7.  A call of \<^verbatim>\<open>Register\<close> that returns has allocated the reactable at the address
  it returns, with the descriptor and the two closures it was given, and has put the
  descriptor on the interest list with that address as user data and with an event
  mask that holds \<^verbatim>\<open>EPOLLIN\<close> and \<^verbatim>\<open>EPOLLRDHUP\<close> iff the read closure is present,
  \<^verbatim>\<open>EPOLLOUT\<close> iff the write closure is present, and no other bit.
\<close>

theorem Register_effect:
  "Register f on_read on_write p s = Inr (q, s') \<Longrightarrow>
     q = p
     \<and> heap s p = None
     \<and> heap s' = (heap s)(p \<mapsto> \<lparr>rfd = f, on_read_ready = on_read, on_write_ready = on_write,
                     is_executing = False, removed = False, finished_promise = None\<rparr>)
     \<and> interest (kern s) f = None
     \<and> interest (kern s') = (interest (kern s))(f \<mapsto>
            \<lparr>events = register_events on_read on_write, data = p\<rparr>)
     \<and> (register_events on_read on_write AND EPOLLIN = EPOLLIN \<longleftrightarrow> on_read \<noteq> None)
     \<and> (register_events on_read on_write AND EPOLLRDHUP = EPOLLRDHUP \<longleftrightarrow> on_read \<noteq> None)
     \<and> (register_events on_read on_write AND EPOLLOUT = EPOLLOUT \<longleftrightarrow> on_write \<noteq> None)
     \<and> register_events on_read on_write AND NOT (EPOLLIN OR EPOLLRDHUP OR EPOLLOUT) = 0"
  using register_events_bits [of on_read on_write]
  by (auto simp: Register_def epoll_ctl_def observe_def split: if_splits sum.splits option.splits)

text \<open>The registration that leads from \<open>fresh_reactor\<close> to \<open>reactor_with_reader\<close>.\<close>

theorem Register_effect_witness:
  "Register 5 (Some []) None 1 fresh_reactor = Inr (1, reactor_with_reader)
   \<and> heap reactor_with_reader 1 = Some reader5
   \<and> interest (kern reactor_with_reader) 5
       = Some \<lparr>events = register_events (Some []) None, data = 1\<rparr>
   \<and> register_events (Some []) None AND EPOLLIN = EPOLLIN
   \<and> register_events (Some []) None AND EPOLLOUT \<noteq> EPOLLOUT"
  using Register_effect [OF reactor_with_reader_built] reactor_with_reader_built
  by (simp add: fresh_reactor_def reader5_def)

lemma modify_events_cases:
  "modify_events REACT_ON_READ_ONLY = EPOLLIN OR EPOLLRDHUP"
  "modify_events REACT_ON_WRITE_ONLY = EPOLLOUT"
  "modify_events REACT_ON_READ_WRITE = (EPOLLIN OR EPOLLRDHUP) OR EPOLLOUT"
  by (simp_all add: modify_events_def)

text \<open>
  C8.  For a live reactable whose descriptor is on the interest list with the
  reactable's address as user data, a call of \<^verbatim>\<open>ModifyRegistration\<close> that returns has
  replaced the event mask of that descriptor by \<^verbatim>\<open>EPOLLIN | EPOLLRDHUP\<close> for read-only,
  \<^verbatim>\<open>EPOLLOUT\<close> for write-only and \<^verbatim>\<open>EPOLLIN | EPOLLRDHUP | EPOLLOUT\<close> for read+write,
  with the same user data, and has changed nothing else: the interest list is the only
  part of the state that differs, so the reactable keeps its descriptor and closures.
\<close>

theorem ModifyRegistration_effect:
  "heap s p = Some r \<Longrightarrow> interest (kern s) (rfd r) = Some \<lparr>events = m, data = p\<rparr> \<Longrightarrow>
   ModifyRegistration p dir s = Inr s' \<Longrightarrow>
     interest (kern s') = (interest (kern s))(rfd r \<mapsto> \<lparr>events = modify_events dir, data = p\<rparr>)
     \<and> modify_events dir =
         (case dir of
            REACT_ON_READ_ONLY \<Rightarrow> EPOLLIN OR EPOLLRDHUP
          | REACT_ON_WRITE_ONLY \<Rightarrow> EPOLLOUT
          | REACT_ON_READ_WRITE \<Rightarrow> (EPOLLIN OR EPOLLRDHUP) OR EPOLLOUT)
     \<and> s' = s\<lparr>kern := (kern s)\<lparr>interest := interest (kern s')\<rparr>\<rparr>
     \<and> heap s' p = Some r"
  by (cases dir) (auto simp: ModifyRegistration_def epoll_ctl_def modify_events_cases split: if_splits sum.splits option.splits)

text \<open>The reader of \<open>reactor_with_reader\<close> switched to write-only.\<close>

theorem ModifyRegistration_effect_witness:
  "(\<exists>s'. ModifyRegistration 1 REACT_ON_WRITE_ONLY reactor_with_reader = Inr s'
          \<and> interest (kern s') 5 = Some \<lparr>events = EPOLLOUT, data = 1\<rparr>
          \<and> heap s' 1 = Some reader5)"
proof -
  have h: "heap reactor_with_reader 1 = Some reader5"
    by (simp add: reactor_with_reader_def)
  have i: "interest (kern reactor_with_reader) (rfd reader5)
             = Some \<lparr>events = EPOLLIN OR EPOLLRDHUP, data = 1\<rparr>"
    by (simp add: reactor_with_reader_def reader5_def)
  obtain s' where m: "ModifyRegistration 1 REACT_ON_WRITE_ONLY reactor_with_reader = Inr s'"
    by (simp add: ModifyRegistration_def epoll_ctl_def reactor_with_reader_def reader5_def
        fresh_reactor_def nullptr_def)
  from ModifyRegistration_effect [OF h i m] m show ?thesis
    by (simp add: reader5_def)
qed

subsection \<open>What calls leave alone\<close>

lemma live_after_append:
  "live_after q (t @ u) b =
     (case live_after q t b of None \<Rightarrow> None | Some b' \<Rightarrow> live_after q u b')"
  by (induction t arbitrary: b) auto

lemma live_after_dead: "live_after q t False = Some b \<Longrightarrow> Allocated q \<notin> set t \<Longrightarrow> \<not> b"
  by (induction t) (auto split: if_splits)

lemma allocation_between:
  assumes "live_after q (t1 @ Destroyed q # t2 @ Destroyed q # t3) b = Some b'"
  shows "Allocated q \<in> set t2"
proof (rule ccontr)
  assume n: "Allocated q \<notin> set t2"
  from assms obtain b1 where
    r: "live_after q (Destroyed q # t2 @ Destroyed q # t3) b1 = Some b'"
    by (auto simp: live_after_append split: option.splits)
  then have "live_after q (t2 @ Destroyed q # t3) False = Some b'"
    by (auto split: if_splits)
  then obtain b2 where b2: "live_after q t2 False = Some b2"
    and d: "live_after q (Destroyed q # t3) b2 = Some b'"
    by (auto simp: live_after_append split: option.splits)
  from live_after_dead [OF b2 n] d show False
    by simp
qed

lemma lifecycle_refl: "lifecycle s s"
  by (auto simp: lifecycle_def)

lemma lifecycle_trans:
  assumes "lifecycle s s'" and "lifecycle s' s''"
  shows "lifecycle s s''"
proof -
  from assms(1) obtain t where t: "trace s' = trace s @ t"
    and lt: "\<And>q. live_after q t (heap s q \<noteq> None) = Some (heap s' q \<noteq> None)"
    unfolding lifecycle_def by blast
  from assms(2) obtain u where u: "trace s'' = trace s' @ u"
    and lu: "\<And>q. live_after q u (heap s' q \<noteq> None) = Some (heap s'' q \<noteq> None)"
    unfolding lifecycle_def by blast
  have "trace s'' = trace s @ (t @ u)"
    using t u by simp
  moreover have "live_after q (t @ u) (heap s q \<noteq> None) = Some (heap s'' q \<noteq> None)" for q
    using lt [of q] lu [of q] by (simp add: live_after_append)
  ultimately show ?thesis
    unfolding lifecycle_def by blast
qed

lemma lifecycle_trace: "lifecycle s s' \<Longrightarrow> \<exists>t. trace s' = trace s @ t"
  unfolding lifecycle_def by blast

lemma call_frame_refl: "call_frame s s"
  by (simp add: call_frame_def lifecycle_refl)

lemma call_frame_lifecycle: "call_frame s s' \<Longrightarrow> lifecycle s s'"
  by (simp add: call_frame_def)

lemma call_frame_running: "call_frame s s' \<Longrightarrow> is_running s' = is_running s"
  by (simp add: call_frame_def)

lemma call_frame_no_callback:
  "call_frame s s' \<Longrightarrow> x \<in> set (drop (length (trace s)) (trace s')) \<Longrightarrow> \<not> is_callback x"
  by (simp add: call_frame_def)

lemma call_frame_live:
  assumes "call_frame s s'" and "heap s q = Some r" and "is_executing r"
  shows "Destroyed q \<notin> set (drop (length (trace s)) (trace s'))
       \<and> (\<exists>r'. heap s' q = Some r' \<and> is_executing r' \<and> rfd r' = rfd r
              \<and> on_read_ready r' = on_read_ready r \<and> on_write_ready r' = on_write_ready r
              \<and> (removed r \<and> finished_promise r \<noteq> None \<longrightarrow>
                     removed r' \<and> finished_promise r' \<noteq> None))"
proof -
  from assms(1) have "\<forall>q r. heap s q = Some r \<and> is_executing r \<longrightarrow>
           Destroyed q \<notin> set (drop (length (trace s)) (trace s'))
           \<and> (\<exists>r'. heap s' q = Some r' \<and> is_executing r' \<and> rfd r' = rfd r
                 \<and> on_read_ready r' = on_read_ready r \<and> on_write_ready r' = on_write_ready r
                 \<and> (removed r \<and> finished_promise r \<noteq> None \<longrightarrow>
                        removed r' \<and> finished_promise r' \<noteq> None))"
    unfolding call_frame_def by (elim conjE)
  with assms(2,3) show ?thesis
    by blast
qed

lemma call_frameI:
  assumes "lifecycle s s'" and "is_running s' = is_running s"
    and "\<And>x. x \<in> set (drop (length (trace s)) (trace s')) \<Longrightarrow> \<not> is_callback x"
    and "\<And>q r. heap s q = Some r \<Longrightarrow> is_executing r \<Longrightarrow>
           Destroyed q \<notin> set (drop (length (trace s)) (trace s'))
           \<and> (\<exists>r'. heap s' q = Some r' \<and> is_executing r' \<and> rfd r' = rfd r
                 \<and> on_read_ready r' = on_read_ready r \<and> on_write_ready r' = on_write_ready r
                 \<and> (removed r \<and> finished_promise r \<noteq> None \<longrightarrow>
                        removed r' \<and> finished_promise r' \<noteq> None))"
  shows "call_frame s s'"
  unfolding call_frame_def using assms by blast

lemma call_frame_trans:
  assumes a: "call_frame s s'" and b: "call_frame s' s''"
  shows "call_frame s s''"
proof (rule call_frameI)
  from a b show "lifecycle s s''"
    by (blast intro: lifecycle_trans call_frame_lifecycle)
  from a b show "is_running s'' = is_running s"
    by (simp add: call_frame_running)
next
  fix x
  assume x: "x \<in> set (drop (length (trace s)) (trace s''))"
  from a obtain t where t: "trace s' = trace s @ t"
    by (blast dest: call_frame_lifecycle lifecycle_trace)
  from b obtain u where u: "trace s'' = trace s' @ u"
    by (blast dest: call_frame_lifecycle lifecycle_trace)
  from x t u have "x \<in> set t \<or> x \<in> set u"
    by auto
  moreover from t have "set t = set (drop (length (trace s)) (trace s'))"
    by simp
  moreover from u have "set u = set (drop (length (trace s')) (trace s''))"
    by simp
  ultimately show "\<not> is_callback x"
    using call_frame_no_callback [OF a, of x] call_frame_no_callback [OF b, of x] by blast
next
  fix q r
  assume q: "heap s q = Some r" and e: "is_executing r"
  from a obtain t where t: "trace s' = trace s @ t"
    by (blast dest: call_frame_lifecycle lifecycle_trace)
  from b obtain u where u: "trace s'' = trace s' @ u"
    by (blast dest: call_frame_lifecycle lifecycle_trace)
  from call_frame_live [OF a q e] t obtain r1 where nt: "Destroyed q \<notin> set t"
    and r1: "heap s' q = Some r1" "is_executing r1" "rfd r1 = rfd r"
      "on_read_ready r1 = on_read_ready r" "on_write_ready r1 = on_write_ready r"
      "removed r \<and> finished_promise r \<noteq> None \<longrightarrow> removed r1 \<and> finished_promise r1 \<noteq> None"
    by auto
  from call_frame_live [OF b r1(1,2)] u obtain r2 where nu: "Destroyed q \<notin> set u"
    and r2: "heap s'' q = Some r2" "is_executing r2" "rfd r2 = rfd r1"
      "on_read_ready r2 = on_read_ready r1" "on_write_ready r2 = on_write_ready r1"
      "removed r1 \<and> finished_promise r1 \<noteq> None \<longrightarrow> removed r2 \<and> finished_promise r2 \<noteq> None"
    by auto
  from t u nt nu have "Destroyed q \<notin> set (drop (length (trace s)) (trace s''))"
    by simp
  with r1 r2 show "Destroyed q \<notin> set (drop (length (trace s)) (trace s''))
           \<and> (\<exists>r'. heap s'' q = Some r' \<and> is_executing r' \<and> rfd r' = rfd r
                 \<and> on_read_ready r' = on_read_ready r \<and> on_write_ready r' = on_write_ready r
                 \<and> (removed r \<and> finished_promise r \<noteq> None \<longrightarrow>
                        removed r' \<and> finished_promise r' \<noteq> None))"
    by simp
qed

lemma control_write_frame: "control_write v s = Inr s' \<Longrightarrow> call_frame s s'"
  by (auto simp: control_write_def call_frame_def lifecycle_def split: option.splits)

lemma observe_frame:
  "\<not> is_callback x \<Longrightarrow> (\<And>q. x \<noteq> Destroyed q \<and> x \<noteq> Allocated q) \<Longrightarrow> call_frame s (observe x s)"
  by (auto simp: call_frame_def lifecycle_def observe_def)

lemma Stop_frame: "Stop s = Inr s' \<Longrightarrow> call_frame s s'"
proof -
  assume a: "Stop s = Inr s'"
  have "call_frame s (if \<not> is_running s then observe (Logged NotRunning) s else s)"
    by (simp add: observe_frame call_frame_refl)
  moreover from a have "call_frame (if \<not> is_running s then observe (Logged NotRunning) s else s) s'"
    unfolding Stop_def by (rule control_write_frame)
  ultimately show ?thesis
    by (rule call_frame_trans)
qed

lemma Unregister_invalidate_frame: "Unregister_invalidate p s = Inr s' \<Longrightarrow> call_frame s s'"
  by (auto simp: Unregister_invalidate_def call_frame_def lifecycle_def split: if_splits)

lemma delete_reactable_frame:
  "delete_reactable p s = Inr s' \<Longrightarrow> heap s p = Some r \<Longrightarrow> \<not> is_executing r \<Longrightarrow> call_frame s s'"
  by (auto simp: delete_reactable_def call_frame_def lifecycle_def observe_def split: option.splits if_splits)

lemma kern_frame: "call_frame s (s\<lparr>kern := k\<rparr>)"
  by (auto simp: call_frame_def lifecycle_def)

lemma defer_frame:
  "heap s p = Some r \<Longrightarrow> make_promise s = (i, s2) \<Longrightarrow>
   call_frame s (s2\<lparr>heap := (heap s2)(p \<mapsto> r\<lparr>removed := True, finished_promise := Some i\<rparr>),
                   executing_reactable_finished := Some i\<rparr>)"
  by (auto simp: call_frame_def lifecycle_def make_promise_def)

lemma Unregister_remove_frame:
  assumes "Unregister_remove p s = Inr s'"
  shows "call_frame s s'"
proof -
  from assms obtain r where r: "heap s p = Some r"
    by (auto simp: Unregister_remove_def split: option.splits)
  from assms r obtain s1 where
    s1: "(case epoll_ctl (kern s) (epoll_fd s) EPOLL_CTL_DEL (rfd r) None of
            Inl e \<Rightarrow> (if e = ENOENT then Inr (observe (Logged InvalidOrUnregistered) s)
                      else Inl AssertFailed)
          | Inr k \<Rightarrow> Inr (s\<lparr>kern := k\<rparr>)) = Inr s1"
    and rest: "(if is_executing r then
                  (case make_promise s1 of (i, s2) \<Rightarrow>
                     Inr (s2\<lparr>heap := (heap s2)(p \<mapsto> r\<lparr>removed := True, finished_promise := Some i\<rparr>),
                             executing_reactable_finished := Some i\<rparr>))
                else delete_reactable p s1) = Inr s'"
    by (auto simp: Unregister_remove_def bnd_def split: sum.splits)
  from s1 have f1: "call_frame s s1"
    by (auto simp: observe_frame kern_frame split: sum.splits if_splits)
  from s1 have h1: "heap s1 = heap s"
    by (auto simp: observe_def split: sum.splits if_splits)
  have "call_frame s1 s'"
  proof (cases "is_executing r")
    case True
    with rest obtain i s2 where "make_promise s1 = (i, s2)"
      and "s' = s2\<lparr>heap := (heap s2)(p \<mapsto> r\<lparr>removed := True, finished_promise := Some i\<rparr>),
                     executing_reactable_finished := Some i\<rparr>"
      by (auto split: prod.splits)
    with r h1 show ?thesis
      by (simp add: defer_frame)
  next
    case False
    with rest r h1 show ?thesis
      by (simp add: delete_reactable_frame)
  qed
  with f1 show ?thesis
    by (rule call_frame_trans)
qed

lemma Unregister_frame:
  assumes "Unregister p s = Inr s'"
  shows "call_frame s s'"
proof -
  from assms obtain s1 where "Unregister_invalidate p s = Inr s1" "Unregister_remove p s1 = Inr s'"
    by (auto simp: Unregister_def bnd_def split: sum.splits)
  then show ?thesis
    by (blast intro: call_frame_trans Unregister_invalidate_frame Unregister_remove_frame)
qed

lemma ModifyRegistration_frame:
  assumes "ModifyRegistration p dir s = Inr s'"
  shows "call_frame s s'"
proof -
  from assms obtain k where "s' = s\<lparr>kern := k\<rparr>"
    by (auto simp: ModifyRegistration_def split: if_splits option.splits sum.splits)
  then show ?thesis
    by (simp add: kern_frame)
qed

lemma WaitForIdle_signal_frame: "WaitForIdle_signal s = Inr (i, s') \<Longrightarrow> call_frame s s'"
proof -
  assume a: "WaitForIdle_signal s = Inr (i, s')"
  have "call_frame s ((snd (make_promise s))\<lparr>idle_promise := Some (fst (make_promise s))\<rparr>)"
    by (auto simp: call_frame_def lifecycle_def make_promise_def)
  moreover from a have "control_write kWaitForIdle
        ((snd (make_promise s))\<lparr>idle_promise := Some (fst (make_promise s))\<rparr>) = Inr s'"
    by (auto simp: WaitForIdle_signal_def bnd_def split: prod.splits sum.splits)
  then have "call_frame ((snd (make_promise s))\<lparr>idle_promise := Some (fst (make_promise s))\<rparr>) s'"
    by (rule control_write_frame)
  ultimately show ?thesis
    by (rule call_frame_trans)
qed

lemma Register_frame: "Register f on_read on_write p s = Inr (q, s') \<Longrightarrow> call_frame s s'"
  by (auto simp: Register_def call_frame_def lifecycle_def observe_def
      split: if_splits sum.splits)

lemma WaitForUnregisteredReactable_frame:
  "call_frame s (snd (WaitForUnregisteredReactable timeout fulfilled_after s))"
  by (auto simp: WaitForUnregisteredReactable_def Let_def observe_frame call_frame_refl
      split: option.splits)

lemma exec_call_frame:
  assumes "exec_call c s = Inr s'"
  shows "call_frame s s'"
proof (cases c)
  case CallStop
  with assms show ?thesis by (simp add: Stop_frame)
next
  case (CallRegister f on_read on_write p)
  with assms obtain q where "Register f on_read on_write p s = Inr (q, s')"
    by (auto simp: bnd_def split: sum.splits)
  then show ?thesis by (rule Register_frame)
next
  case (CallWaitForUnregisteredReactable timeout fulfilled_after)
  with assms show ?thesis by (auto simp: WaitForUnregisteredReactable_frame)
next
  case (CallUnregister p)
  with assms show ?thesis by (simp add: Unregister_frame)
next
  case (CallUnregisterInvalidate p)
  with assms show ?thesis by (simp add: Unregister_invalidate_frame)
next
  case (CallUnregisterRemove p)
  with assms show ?thesis by (simp add: Unregister_remove_frame)
next
  case (CallModifyRegistration p dir)
  with assms show ?thesis by (simp add: ModifyRegistration_frame)
next
  case CallWaitForIdle
  with assms obtain i where "WaitForIdle_signal s = Inr (i, s')"
    by (auto simp: bnd_def split: sum.splits)
  then show ?thesis by (rule WaitForIdle_signal_frame)
qed

lemma run_calls_frame: "run_calls cs s = Inr s' \<Longrightarrow> call_frame s s'"
proof (induction cs arbitrary: s)
  case Nil
  then show ?case by (simp add: call_frame_refl)
next
  case (Cons c cs)
  then obtain s1 where "exec_call c s = Inr s1" "run_calls cs s1 = Inr s'"
    by (auto simp: bnd_def split: sum.splits)
  with Cons.IH show ?case
    by (blast intro: call_frame_trans exec_call_frame)
qed

subsection \<open>The faults of the loop\<close>

lemma control_write_faults: "control_write v s = Inl e \<Longrightarrow> e = AssertFailed"
  by (auto simp: control_write_def split: option.splits)

lemma Unregister_remove_faults: "Unregister_remove p s = Inl e \<Longrightarrow> e = AssertFailed \<or> e = UseAfterFree"
  by (auto simp: Unregister_remove_def delete_reactable_def observe_def bnd_def
      split: option.splits sum.splits if_splits prod.splits)

lemma exec_call_faults:
  "exec_call c s = Inl e \<Longrightarrow> e = AssertFailed \<or> e = UseAfterFree \<or> e = BadAlloc"
proof (cases c)
  case CallStop
  then show "exec_call c s = Inl e \<Longrightarrow> ?thesis"
    by (auto simp: Stop_def dest: control_write_faults)
next
  case (CallRegister f on_read on_write p)
  then show "exec_call c s = Inl e \<Longrightarrow> ?thesis"
    by (auto simp: Register_def bnd_def split: if_splits sum.splits)
next
  case (CallWaitForUnregisteredReactable timeout fulfilled_after)
  then show "exec_call c s = Inl e \<Longrightarrow> ?thesis"
    by simp
next
  case (CallUnregister p)
  then show "exec_call c s = Inl e \<Longrightarrow> ?thesis"
    by (auto simp: Unregister_def Unregister_invalidate_def bnd_def split: if_splits sum.splits
        dest: Unregister_remove_faults)
next
  case (CallUnregisterInvalidate p)
  then show "exec_call c s = Inl e \<Longrightarrow> ?thesis"
    by (auto simp: Unregister_invalidate_def split: if_splits)
next
  case (CallUnregisterRemove p)
  then show "exec_call c s = Inl e \<Longrightarrow> ?thesis"
    by (auto dest: Unregister_remove_faults)
next
  case (CallModifyRegistration p dir)
  then show "exec_call c s = Inl e \<Longrightarrow> ?thesis"
    by (auto simp: ModifyRegistration_def split: if_splits option.splits sum.splits)
next
  case CallWaitForIdle
  then show "exec_call c s = Inl e \<Longrightarrow> ?thesis"
    by (auto simp: WaitForIdle_signal_def bnd_def split: prod.splits sum.splits
        dest: control_write_faults)
qed

lemma run_calls_faults:
  "run_calls cs s = Inl e \<Longrightarrow> e = AssertFailed \<or> e = UseAfterFree \<or> e = BadAlloc"
proof (induction cs arbitrary: s)
  case Nil
  then show ?case by simp
next
  case (Cons c cs)
  show ?case
  proof (cases "exec_call c s")
    case (Inl e')
    with Cons.prems have "e' = e" by (simp add: bnd_def)
    with Inl show ?thesis by (auto dest: exec_call_faults)
  next
    case (Inr s1)
    with Cons.prems have "run_calls cs s1 = Inl e" by (simp add: bnd_def)
    then show ?thesis by (rule Cons.IH)
  qed
qed

lemma run_calls_loop_faults: "run_calls cs s = Inl e \<Longrightarrow> e \<in> loop_faults"
  by (auto simp: loop_faults_def dest: run_calls_faults)

lemma set_value_faults: "set_value i s = Inl e \<Longrightarrow> e \<in> loop_faults"
  by (auto simp: set_value_def loop_faults_def split: if_splits)

lemma set_value_heap: "set_value i s = Inr s' \<Longrightarrow> heap s' = heap s"
  by (auto simp: set_value_def observe_def split: if_splits)

lemma finish_event_faults: "finish_event p s = Inl e \<Longrightarrow> e \<in> loop_faults"
proof -
  assume a: "finish_event p s = Inl e"
  show ?thesis
  proof (cases "heap s p")
    case None
    with a show ?thesis by (simp add: finish_event_def loop_faults_def)
  next
    case (Some r)
    show ?thesis
    proof (cases "removed r")
      case False
      with a Some show ?thesis by (simp add: finish_event_def Let_def)
    next
      case True
      show ?thesis
      proof (cases "finished_promise r")
        case None
        with a Some True show ?thesis by (simp add: finish_event_def Let_def loop_faults_def)
      next
        case (Some i)
        let ?s1 = "s\<lparr>heap := (heap s)(p \<mapsto> r\<lparr>is_executing := False\<rparr>)\<rparr>"
        from a \<open>heap s p = Some r\<close> True Some
        have b: "bnd (set_value i ?s1) (delete_reactable p) = Inl e"
          by (simp add: finish_event_def Let_def)
        show ?thesis
        proof (cases "set_value i ?s1")
          case (Inl e')
          with b show ?thesis by (auto simp: bnd_def dest: set_value_faults)
        next
          case (Inr s2)
          then have "heap s2 p \<noteq> None"
            by (auto dest: set_value_heap)
          with b Inr show ?thesis
            by (auto simp: bnd_def delete_reactable_def split: option.splits)
        qed
      qed
    qed
  qed
qed

lemma callback_faults:
  "read_callback evs p s = Inl e \<Longrightarrow> e \<in> loop_faults"
  "write_callback evs p s = Inl e \<Longrightarrow> e \<in> loop_faults"
  by (auto simp: read_callback_def write_callback_def run_closure_def loop_faults_def
      split: if_splits option.splits dest: run_calls_faults)

lemma begin_event_faults: "begin_event p s = Inl e \<Longrightarrow> e \<in> loop_faults"
  by (auto simp: begin_event_def Let_def loop_faults_def split: if_splits option.splits)

lemma reactable_event_faults:
  assumes "reactable_event ev s = Inl e"
  shows "e \<in> loop_faults"
proof (cases "begin_event (data ev) s")
  case (Inl e')
  with assms show ?thesis
    by (auto simp: reactable_event_def bnd_def dest: begin_event_faults)
next
  case (Inr b)
  obtain skip s1 where b: "b = (skip, s1)" by (cases b)
  show ?thesis
  proof (cases "read_callback (events ev) (data ev) s1")
    case (Inl e')
    with assms Inr b show ?thesis
      by (auto simp: reactable_event_def bnd_def split: if_splits dest: callback_faults)
  next
    case r: (Inr s2)
    show ?thesis
    proof (cases "write_callback (events ev) (data ev) s2")
      case (Inl e')
      with assms Inr b r show ?thesis
        by (auto simp: reactable_event_def bnd_def split: if_splits dest: callback_faults)
    next
      case w: (Inr s3)
      with assms Inr b r show ?thesis
        by (auto simp: reactable_event_def bnd_def split: if_splits dest: finish_event_faults)
    qed
  qed
qed

lemma control_event_faults: "control_event t w s = Inl e \<Longrightarrow> e \<in> loop_faults"
  by (auto simp: control_event_def loop_faults_def split: option.splits prod.splits)

lemma process_batch_faults: "process_batch evs css t w s = Inl e \<Longrightarrow> e \<in> loop_faults"
proof (induction evs arbitrary: css t w s)
  case Nil
  then show ?case by simp
next
  case (Cons ev evs)
  let ?cs = "case css of [] \<Rightarrow> [] | cs # _ \<Rightarrow> cs"
  show ?case
  proof (cases "run_calls ?cs s")
    case (Inl e')
    with Cons.prems show ?thesis
      by (auto dest: run_calls_loop_faults)
  next
    case (Inr s1)
    show ?thesis
    proof (cases "events ev = 0")
      case True
      with Cons.prems Inr show ?thesis by (simp add: loop_faults_def)
    next
      case nz: False
      show ?thesis
      proof (cases "data ev = nullptr")
        case True
        with Cons.prems Inr nz show ?thesis
          by (auto split: sum.splits loop.splits dest: control_event_faults Cons.IH)
      next
        case False
        with Cons.prems Inr nz show ?thesis
          by (auto split: sum.splits dest: reactable_event_faults Cons.IH)
      qed
    qed
  qed
qed

lemma idle_check_faults: "idle_check n t w s = Inl e \<Longrightarrow> e \<in> loop_faults"
  by (auto simp: idle_check_def bnd_def loop_faults_def split: if_splits option.splits sum.splits
      dest: set_value_faults)

lemma dispatch_loop_faults: "dispatch_loop script t w s = Crashed e \<Longrightarrow> e \<in> loop_faults"
proof (induction script arbitrary: t w s)
  case Nil
  then show ?case by simp
next
  case (Cons p ps)
  then show ?case
    by (auto simp: loop_faults_def [symmetric] split: sum.splits if_splits prod.splits loop.splits
        dest: run_calls_loop_faults idle_check_faults process_batch_faults)
      (simp add: loop_faults_def)
qed

subsection \<open>What the loop leaves alone\<close>

lemma loop_frame_refl: "loop_frame s s"
  by (simp add: loop_frame_def lifecycle_refl)

lemma loop_frame_trans: "loop_frame s s' \<Longrightarrow> loop_frame s' s'' \<Longrightarrow> loop_frame s s''"
  unfolding loop_frame_def by (auto intro: lifecycle_trans)

lemma call_frame_loop: "call_frame s s' \<Longrightarrow> loop_frame s s'"
  by (simp add: loop_frame_def call_frame_lifecycle call_frame_running)

lemma run_calls_loop_frame: "run_calls cs s = Inr s' \<Longrightarrow> loop_frame s s'"
  by (blast intro: call_frame_loop run_calls_frame)

lemma same_heap_trace_frame:
  "heap s' = heap s \<Longrightarrow> trace s' = trace s \<Longrightarrow> is_running s' = is_running s \<Longrightarrow> loop_frame s s'"
  by (auto simp: loop_frame_def lifecycle_def)

lemma observe_loop_frame:
  "(\<And>q. x \<noteq> Destroyed q \<and> x \<noteq> Allocated q) \<Longrightarrow> loop_frame s (observe x s)"
  by (auto simp: loop_frame_def lifecycle_def observe_def)

lemma set_value_loop_frame: "set_value i s = Inr s' \<Longrightarrow> loop_frame s s'"
  by (auto simp: set_value_def loop_frame_def lifecycle_def observe_def split: if_splits)

lemma delete_reactable_loop_frame: "delete_reactable p s = Inr s' \<Longrightarrow> loop_frame s s'"
  by (auto simp: delete_reactable_def loop_frame_def lifecycle_def observe_def
      split: option.splits if_splits)

lemma executing_flag_loop_frame:
  "heap s p = Some r \<Longrightarrow> loop_frame s (s\<lparr>heap := (heap s)(p \<mapsto> r\<lparr>is_executing := b\<rparr>)\<rparr>)"
  by (auto simp: loop_frame_def lifecycle_def)

lemma begin_event_cases:
  assumes "begin_event p s = Inr (skip, s1)"
  shows "(skip \<and> p \<in> set (invalidation_list s) \<and> s1 = s\<lparr>executing_reactable_finished := None\<rparr>)
       \<or> (\<not> skip \<and> p \<notin> set (invalidation_list s)
           \<and> (\<exists>r. heap s p = Some r
                 \<and> s1 = s\<lparr>executing_reactable_finished := None,
                           heap := (heap s)(p \<mapsto> r\<lparr>is_executing := True\<rparr>)\<rparr>))"
  using assms by (auto simp: begin_event_def Let_def split: if_splits option.splits)

lemma begin_event_loop_frame: "begin_event p s = Inr (skip, s1) \<Longrightarrow> loop_frame s s1"
  by (drule begin_event_cases) (auto simp: loop_frame_def lifecycle_def)

lemma begin_event_trace: "begin_event p s = Inr (skip, s1) \<Longrightarrow> trace s1 = trace s"
  by (drule begin_event_cases) auto

lemma read_callback_cases:
  assumes "read_callback evs p s = Inr s'"
  shows "s' = s
       \<or> (\<exists>r body. evs AND (EPOLLIN OR EPOLLHUP OR EPOLLRDHUP OR EPOLLERR) \<noteq> 0
            \<and> heap s p = Some r \<and> on_read_ready r = Some body
            \<and> call_frame (observe (ReadCallback p) s) s')"
  using assms
  by (auto simp: read_callback_def run_closure_def split: if_splits option.splits
      dest: run_calls_frame)

lemma write_callback_cases:
  assumes "write_callback evs p s = Inr s'"
  shows "s' = s
       \<or> (\<exists>r body. evs AND EPOLLOUT \<noteq> 0
            \<and> heap s p = Some r \<and> on_write_ready r = Some body
            \<and> call_frame (observe (WriteCallback p) s) s')"
  using assms
  by (auto simp: write_callback_def run_closure_def split: if_splits option.splits
      dest: run_calls_frame)

lemma read_callback_loop_frame: "read_callback evs p s = Inr s' \<Longrightarrow> loop_frame s s'"
  by (drule read_callback_cases)
    (auto intro: loop_frame_refl loop_frame_trans [OF observe_loop_frame call_frame_loop])

lemma write_callback_loop_frame: "write_callback evs p s = Inr s' \<Longrightarrow> loop_frame s s'"
  by (drule write_callback_cases)
    (auto intro: loop_frame_refl loop_frame_trans [OF observe_loop_frame call_frame_loop])

lemma finish_event_cases:
  assumes "finish_event p s = Inr s'"
  shows "\<exists>r. heap s p = Some r
           \<and> (if removed r then
                (\<exists>i. finished_promise r = Some i \<and> i < length (promises s) \<and> \<not> promises s ! i
                   \<and> s' = s\<lparr>heap := (heap s)(p := None),
                             promises := (promises s)[i := True],
                             trace := trace s @ [Fulfilled i, Destroyed p]\<rparr>)
              else s' = s\<lparr>heap := (heap s)(p \<mapsto> r\<lparr>is_executing := False\<rparr>)\<rparr>)"
  using assms
  by (auto simp: finish_event_def Let_def bnd_def set_value_def delete_reactable_def observe_def
      split: option.splits if_splits sum.splits)

lemma finish_event_loop_frame: "finish_event p s = Inr s' \<Longrightarrow> loop_frame s s'"
  by (drule finish_event_cases)
    (auto simp: loop_frame_def lifecycle_def split: if_splits)

lemma reactable_event_steps:
  assumes "reactable_event ev s = Inr s'"
  shows "\<exists>skip s1. begin_event (data ev) s = Inr (skip, s1)
           \<and> (if skip then s' = s1
               else \<exists>s2 s3. read_callback (events ev) (data ev) s1 = Inr s2
                      \<and> write_callback (events ev) (data ev) s2 = Inr s3
                      \<and> finish_event (data ev) s3 = Inr s')"
  using assms
  by (auto simp: reactable_event_def bnd_def split: sum.splits prod.splits if_splits)

lemma reactable_event_loop_frame:
  assumes "reactable_event ev s = Inr s'"
  shows "loop_frame s s'"
proof -
  from reactable_event_steps [OF assms] obtain skip s1 where
    b: "begin_event (data ev) s = Inr (skip, s1)"
    and rest: "if skip then s' = s1
               else \<exists>s2 s3. read_callback (events ev) (data ev) s1 = Inr s2
                      \<and> write_callback (events ev) (data ev) s2 = Inr s3
                      \<and> finish_event (data ev) s3 = Inr s'"
    by blast
  from b have f: "loop_frame s s1" by (rule begin_event_loop_frame)
  show ?thesis
  proof (cases skip)
    case True
    with rest f show ?thesis by simp
  next
    case False
    with rest obtain s2 s3 where "read_callback (events ev) (data ev) s1 = Inr s2"
      "write_callback (events ev) (data ev) s2 = Inr s3" "finish_event (data ev) s3 = Inr s'"
      by auto
    with f show ?thesis
      by (blast intro: loop_frame_trans read_callback_loop_frame write_callback_loop_frame
          finish_event_loop_frame)
  qed
qed

lemma control_command_frame:
  "(case control_command v t w s of
      Stopped s' \<Rightarrow> lifecycle s s' \<and> \<not> is_running s'
    | Running t' w' s' \<Rightarrow> loop_frame s s')"
  by (auto simp: control_command_def loop_frame_def lifecycle_def observe_def)

lemma control_event_frame:
  assumes "control_event t w s = Inr l"
  shows "case l of
      Stopped s' \<Rightarrow> lifecycle s s' \<and> \<not> is_running s'
    | Running t' w' s' \<Rightarrow> loop_frame s s'"
proof -
  from assms obtain v k where l: "l = control_command v t w (s\<lparr>kern := k\<rparr>)"
    by (auto simp: control_event_def split: option.splits prod.splits)
  have "loop_frame s (s\<lparr>kern := k\<rparr>)"
    by (simp add: same_heap_trace_frame)
  with control_command_frame [where v = v and t = t and w = w and s = "s\<lparr>kern := k\<rparr>"] l
  show ?thesis
    by (auto simp: loop_frame_def split: loop.splits intro: lifecycle_trans)
qed

lemma process_batch_frame:
  "process_batch evs css t w s = Inr l \<Longrightarrow>
     (case l of
        Stopped s' \<Rightarrow> lifecycle s s' \<and> \<not> is_running s'
      | Running t' w' s' \<Rightarrow> loop_frame s s')"
proof (induction evs arbitrary: css t w s)
  case Nil
  then show ?case by (auto simp: loop_frame_refl)
next
  case (Cons ev evs)
  let ?cs = "case css of [] \<Rightarrow> [] | cs # _ \<Rightarrow> cs"
  from Cons.prems obtain s1 where s1: "run_calls ?cs s = Inr s1" and nz: "events ev \<noteq> 0"
    by (auto split: sum.splits if_splits)
  from s1 have f1: "loop_frame s s1" by (rule run_calls_loop_frame)
  show ?case
  proof (cases "data ev = nullptr")
    case True
    with Cons.prems s1 nz obtain l1 where c: "control_event t w s1 = Inr l1"
      and rest: "(case l1 of Stopped s2 \<Rightarrow> Inr (Stopped s2)
                  | Running t' w' s2 \<Rightarrow> process_batch evs (tl css) t' w' s2) = Inr l"
      by (auto split: sum.splits)
    show ?thesis
    proof (cases l1)
      case (Stopped s2)
      with rest have "l = Stopped s2" by simp
      with control_event_frame [OF c] Stopped f1 show ?thesis
        by (auto simp: loop_frame_def intro: lifecycle_trans)
    next
      case (Running t' w' s2)
      with rest have "process_batch evs (tl css) t' w' s2 = Inr l" by simp
      from Cons.IH [OF this] control_event_frame [OF c] Running f1 show ?thesis
        by (auto simp: loop_frame_def split: loop.splits intro: lifecycle_trans)
    qed
  next
    case False
    with Cons.prems s1 nz obtain s2 where r: "reactable_event ev s1 = Inr s2"
      and rest: "process_batch evs (tl css) t w s2 = Inr l"
      by (auto split: sum.splits)
    from r have "loop_frame s1 s2" by (rule reactable_event_loop_frame)
    with f1 have "loop_frame s s2" by (rule loop_frame_trans)
    with Cons.IH [OF rest] show ?thesis
      by (auto simp: loop_frame_def split: loop.splits intro: lifecycle_trans)
  qed
qed

lemma idle_check_frame: "idle_check n t w s = Inr (t', w', s') \<Longrightarrow> loop_frame s s'"
proof -
  assume a: "idle_check n t w s = Inr (t', w', s')"
  show ?thesis
  proof (cases "w \<and> n = 0")
    case True
    with a obtain i s1 where "set_value i s = Inr s1" and "s' = s1\<lparr>idle_promise := None\<rparr>"
      by (auto simp: idle_check_def bnd_def split: option.splits sum.splits)
    then show ?thesis
      by (auto dest!: set_value_loop_frame simp: loop_frame_def lifecycle_def)
  next
    case False
    with a show ?thesis by (auto simp: idle_check_def loop_frame_refl)
  qed
qed

lemma dispatch_loop_frame:
  "(dispatch_loop script t w s = Returned s' \<longrightarrow> lifecycle s s' \<and> \<not> is_running s')
   \<and> (dispatch_loop script t w s = Blocked s' \<longrightarrow> loop_frame s s')"
proof (induction script arbitrary: t w s)
  case Nil
  show ?case by (simp add: loop_frame_refl)
next
  case (Cons p ps)
  show ?case
  proof (cases "run_calls (before_clear p) s")
    case (Inl e)
    then show ?thesis by simp
  next
    case (Inr s0)
    then have f0: "loop_frame s (s0\<lparr>invalidation_list := []\<rparr>)"
      by (auto dest!: run_calls_loop_frame simp: loop_frame_def lifecycle_def)
    show ?thesis
    proof (cases "run_calls (during_wait p) (s0\<lparr>invalidation_list := []\<rparr>)")
      case (Inl e)
      with Inr show ?thesis by simp
    next
      case s1: (Inr s1)
      with f0 have f1: "loop_frame s s1"
        by (blast intro: loop_frame_trans run_calls_loop_frame)
      show ?thesis
      proof (cases "epoll_wait (kern s1) (epoll_fd s1) (ready p)")
        case (Inl e)
        with Inr s1 show ?thesis by simp
      next
        case ew: (Inr batch)
        show ?thesis
        proof (cases "batch = [] \<and> t < 0")
          case True
          with Inr s1 ew f1 show ?thesis by auto
        next
          case nb: False
          show ?thesis
          proof (cases "idle_check (length batch) t w s1")
            case (Inl e)
            with Inr s1 ew nb show ?thesis by auto
          next
            case i: (Inr x)
            obtain t1 w1 s2 where x: "x = (t1, w1, s2)" by (cases x)
            with i f1 have f2: "loop_frame s s2"
              by (blast intro: loop_frame_trans idle_check_frame)
            show ?thesis
            proof (cases "process_batch batch (between p) t1 w1 s2")
              case (Inl e)
              with Inr s1 ew nb i x show ?thesis by auto
            next
              case pb: (Inr l)
              show ?thesis
              proof (cases l)
                case (Stopped s3)
                with Inr s1 ew nb i x pb have "dispatch_loop (p # ps) t w s = Returned s3"
                  by auto
                with process_batch_frame [OF pb] Stopped f2 show ?thesis
                  by (auto simp: loop_frame_def intro: lifecycle_trans)
              next
                case (Running t2 w2 s3)
                with Inr s1 ew nb i x pb
                have "dispatch_loop (p # ps) t w s = dispatch_loop ps t2 w2 s3"
                  by auto
                with process_batch_frame [OF pb] Running f2 Cons.IH [of t2 w2 s3] show ?thesis
                  by (auto simp: loop_frame_def intro: lifecycle_trans)
              qed
            qed
          qed
        qed
      qed
    qed
  qed
qed

subsection \<open>The running flag\<close>

lemma running_update_frame: "lifecycle s (s\<lparr>is_running := b\<rparr>)"
  by (auto simp: lifecycle_def)




















subsection \<open>Stop\<close>

text \<open>
  Calls of \<^verbatim>\<open>Stop\<close> add up in the counter of the control channel, and the one read
  that takes them all stops the loop iff their number is odd.
\<close>

lemma Stop_counter:
  assumes "Stop s = Inr s'" and "eventfds (kern s) (control_fd s) = Some c"
  shows "eventfds (kern s') (control_fd s') = Some (c + 1) \<and> unat c + 1 \<le> 2 ^ 64 - 2
       \<and> control_fd s' = control_fd s"
  using assms
  by (auto simp: Stop_def control_write_def eventfd_write_def kStopReactor_def observe_def
      split: if_splits option.splits)

lemma Stop_times_counter:
  "Stop_times n s = Inr s' \<Longrightarrow> eventfds (kern s) (control_fd s) = Some c \<Longrightarrow>
     eventfds (kern s') (control_fd s') = Some (c + of_nat n)
     \<and> (n \<noteq> 0 \<longrightarrow> unat c + n \<le> 2 ^ 64 - 2)"
proof (induction n arbitrary: s c)
  case 0
  then show ?case by simp
next
  case (Suc n)
  from Suc.prems(1) obtain s1 where s1: "Stop s = Inr s1" and r: "Stop_times n s1 = Inr s'"
    by (auto simp: bnd_def split: sum.splits)
  from Stop_counter [OF s1 Suc.prems(2)]
  have c1: "eventfds (kern s1) (control_fd s1) = Some (c + 1)" and b: "unat c + 1 \<le> 2 ^ 64 - 2"
    by blast+
  from b have u: "unat (c + 1) = unat c + 1"
    by (simp add: unat_word_ariths)
  from Suc.IH [OF r c1] u b show ?case
    by (cases "n = 0") (simp_all add: ac_simps)
qed

lemma coalesced_stops:
  assumes "Stop_times n s = Inr s'" and "eventfds (kern s) (control_fd s) = Some 0"
    and "control_event t w s' = Inr l"
  shows "(\<exists>s''. l = Stopped s'') \<longleftrightarrow> odd n"
proof -
  from Stop_times_counter [OF assms(1,2)]
  have c: "eventfds (kern s') (control_fd s') = Some (of_nat n)"
    and b: "n \<noteq> 0 \<longrightarrow> n \<le> 2 ^ 64 - 2"
    by simp_all
  show ?thesis
  proof (cases "n = 0")
    case True
    with c assms(3) show ?thesis
      by (simp add: control_event_def eventfd_read_def)
  next
    case False
    with b have "(of_nat n :: u64) \<noteq> 0"
      by (intro of_nat_neq_0) simp_all
    with c assms(3) have "l = control_command (of_nat n) t w
        (s'\<lparr>kern := (kern s')\<lparr>eventfds := (eventfds (kern s'))(control_fd s' \<mapsto> 0)\<rparr>\<rparr>)"
      by (simp add: control_event_def eventfd_read_def)
    then show ?thesis
      by (auto simp: control_command_def stop_bit bit_0 split: if_splits)
  qed
qed

text \<open>
  C1 fails for two calls of \<^verbatim>\<open>Stop\<close>.  Each call adds \<open>kStopReactor = 1\<close> to the
  counter of the control channel.  After one call the loop reads 1 and \<^verbatim>\<open>Run\<close>
  returns.  After two calls before the next read the loop reads 2, whose \<^verbatim>\<open>STOP\<close> bit
  is clear and whose \<^verbatim>\<open>WAIT_FOR_IDLE\<close> bit is set: \<^verbatim>\<open>Run\<close> does not return but
  starts waiting for idle, and when the next \<^verbatim>\<open>epoll_wait\<close> times out it
  dereferences the idle promise, which is null.
\<close>

theorem Stop_twice_not_observed:
  "Stop fresh_reactor
     = Inr (fresh_reactor\<lparr>trace := [Logged NotRunning],
                          kern := (kern fresh_reactor)\<lparr>eventfds := [4 \<mapsto> 1]\<rparr>\<rparr>)
   \<and> Stop (fresh_reactor\<lparr>trace := [Logged NotRunning],
                          kern := (kern fresh_reactor)\<lparr>eventfds := [4 \<mapsto> 1]\<rparr>\<rparr>)
     = Inr (fresh_reactor\<lparr>trace := [Logged NotRunning, Logged NotRunning],
                          kern := (kern fresh_reactor)\<lparr>eventfds := [4 \<mapsto> 2]\<rparr>\<rparr>)
   \<and> returned (Run [control_ready]
        (fresh_reactor\<lparr>trace := [Logged NotRunning],
                       kern := (kern fresh_reactor)\<lparr>eventfds := [4 \<mapsto> 1]\<rparr>\<rparr>))
   \<and> \<not> returned (Run [control_ready]
        (fresh_reactor\<lparr>trace := [Logged NotRunning, Logged NotRunning],
                       kern := (kern fresh_reactor)\<lparr>eventfds := [4 \<mapsto> 2]\<rparr>\<rparr>))
   \<and> Run [control_ready, quiet]
        (fresh_reactor\<lparr>trace := [Logged NotRunning, Logged NotRunning],
                       kern := (kern fresh_reactor)\<lparr>eventfds := [4 \<mapsto> 2]\<rparr>\<rparr>)
       = Crashed NullDeref"
  by (simp add: eval_defs control_ready_def quiet_def)

subsection \<open>Unregister and the invalidation list\<close>

text \<open>An event whose reactable is on the invalidation list is skipped.\<close>

lemma invalidated_event_skipped:
  "data ev \<in> set (invalidation_list s) \<Longrightarrow>
     reactable_event ev s = Inr (s\<lparr>executing_reactable_finished := None\<rparr>)"
  by (simp add: reactable_event_def begin_event_def bnd_def Let_def)

text \<open>
  When \<^verbatim>\<open>Unregister\<close> runs as a whole after the batch was returned and before the
  loop reaches the event, the reactable is destroyed and its event is skipped.
\<close>

lemma Unregister_before_entry_skipped:
  "Run [\<lparr>before_clear = [], during_wait = [], ready = [(5, EPOLLIN)],
         between = [[CallUnregister 1]]\<rparr>] reactor_with_reader
     = Blocked (fresh_reactor\<lparr>is_running := True, invalidation_list := [1],
                              trace := [Allocated 1, Destroyed 1]\<rparr>)"
  by (simp add: eval_defs fun_upd_twist)

text \<open>
  C2 fails when the loop clears the invalidation list between the two critical
  sections of \<^verbatim>\<open>Unregister\<close>.  In the pass \<open>racing_unregister\<close> the other thread has
  appended the reactable to the list, the loop clears the list, \<^verbatim>\<open>epoll_wait\<close>
  returns the event of the reactable, which is still registered, and the other thread
  then removes the descriptor and destroys the reactable, which is not executing:
  \<^verbatim>\<open>Unregister\<close> has returned.  The loop reaches the event, does not find the
  reactable on the list, and locks the mutex of the destroyed reactable.
\<close>

theorem Unregister_race_use_after_free:
  "Unregister_invalidate 1 (reactor_with_reader\<lparr>is_running := True\<rparr>)
     = Inr (reactor_with_reader\<lparr>is_running := True, invalidation_list := [1]\<rparr>)
   \<and> epoll_wait (kern reactor_with_reader) 3 [(5, EPOLLIN)] = Inr [\<lparr>events = EPOLLIN, data = 1\<rparr>]
   \<and> Unregister_remove 1 (reactor_with_reader\<lparr>is_running := True, invalidation_list := []\<rparr>)
     = Inr (fresh_reactor\<lparr>is_running := True, trace := [Allocated 1, Destroyed 1]\<rparr>)
   \<and> reactable_event \<lparr>events = EPOLLIN, data = 1\<rparr>
        (fresh_reactor\<lparr>is_running := True, trace := [Allocated 1, Destroyed 1]\<rparr>) = Inl UseAfterFree
   \<and> Run [racing_unregister] reactor_with_reader = Crashed UseAfterFree"
  by (simp add: eval_defs racing_unregister_def fun_upd_twist)

subsection \<open>The order of the two callbacks\<close>

lemma call_frame_trace:
  assumes "call_frame s s'"
  shows "\<exists>t. trace s' = trace s @ t \<and> (\<forall>x \<in> set t. \<not> is_callback x)"
proof -
  from assms obtain t where t: "trace s' = trace s @ t"
    by (blast dest: call_frame_lifecycle lifecycle_trace)
  then have "set t = set (drop (length (trace s)) (trace s'))"
    by simp
  with assms t show ?thesis
    by (blast dest: call_frame_no_callback)
qed

lemma finish_event_trace:
  assumes "finish_event p s = Inr s'"
  shows "\<exists>t. trace s' = trace s @ t \<and> (\<forall>x \<in> set t. \<not> is_callback x)"
  using finish_event_cases [OF assms] by (auto split: if_splits)

text \<open>
  C10.  An event that is not skipped, that signals one of \<^verbatim>\<open>EPOLLIN\<close>, \<^verbatim>\<open>EPOLLHUP\<close>,
  \<^verbatim>\<open>EPOLLRDHUP\<close>, \<^verbatim>\<open>EPOLLERR\<close> and also \<^verbatim>\<open>EPOLLOUT\<close>, and whose reactable has both
  closures invokes the read-ready callback first and the write-ready callback after
  it, each once, whatever the closures do, as long as nothing they do is fatal.
\<close>

theorem read_before_write:
  assumes ev: "reactable_event ev s = Inr s'"
    and live: "heap s (data ev) = Some r"
    and valid: "data ev \<notin> set (invalidation_list s)"
    and rd: "on_read_ready r = Some rbody"
    and wr: "on_write_ready r = Some wbody"
    and rsig: "events ev AND (EPOLLIN OR EPOLLHUP OR EPOLLRDHUP OR EPOLLERR) \<noteq> 0"
    and wsig: "events ev AND EPOLLOUT \<noteq> 0"
  shows "\<exists>t1 t2. trace s' = trace s @ ReadCallback (data ev) # t1 @ WriteCallback (data ev) # t2
           \<and> (\<forall>x \<in> set t1 \<union> set t2. \<not> is_callback x)"
proof -
  let ?p = "data ev"
  from reactable_event_steps [OF ev] obtain skip s1 where
    b: "begin_event ?p s = Inr (skip, s1)"
    and rest: "if skip then s' = s1
               else \<exists>s2 s3. read_callback (events ev) ?p s1 = Inr s2
                      \<and> write_callback (events ev) ?p s2 = Inr s3
                      \<and> finish_event ?p s3 = Inr s'"
    by blast
  from begin_event_cases [OF b] valid live have ns: "\<not> skip"
    and s1: "s1 = s\<lparr>executing_reactable_finished := None,
                    heap := (heap s)(?p \<mapsto> r\<lparr>is_executing := True\<rparr>)\<rparr>"
    by auto
  from rest ns obtain s2 s3 where rc: "read_callback (events ev) ?p s1 = Inr s2"
    and wc: "write_callback (events ev) ?p s2 = Inr s3"
    and fe: "finish_event ?p s3 = Inr s'"
    by auto
  from s1 have h1: "heap s1 ?p = Some (r\<lparr>is_executing := True\<rparr>)" and t1: "trace s1 = trace s"
    by simp_all
  from rc h1 rd rsig have "run_calls rbody (observe (ReadCallback ?p) s1) = Inr s2"
    by (simp add: read_callback_def run_closure_def)
  then have f2: "call_frame (observe (ReadCallback ?p) s1) s2"
    by (rule run_calls_frame)
  from call_frame_trace [OF f2] t1 obtain u1 where
    u1: "trace s2 = trace s @ ReadCallback ?p # u1" "\<forall>x \<in> set u1. \<not> is_callback x"
    by (auto simp: observe_def)
  from h1 have "heap (observe (ReadCallback ?p) s1) ?p = Some (r\<lparr>is_executing := True\<rparr>)"
    by (simp add: observe_def)
  from call_frame_live [OF f2 this] wr obtain r2 where
    h2: "heap s2 ?p = Some r2" "is_executing r2" "on_write_ready r2 = Some wbody"
    by auto
  from wc h2 wsig have "run_calls wbody (observe (WriteCallback ?p) s2) = Inr s3"
    by (simp add: write_callback_def run_closure_def)
  then have f3: "call_frame (observe (WriteCallback ?p) s2) s3"
    by (rule run_calls_frame)
  from call_frame_trace [OF f3] obtain u2 where
    u2: "trace s3 = trace s2 @ WriteCallback ?p # u2" "\<forall>x \<in> set u2. \<not> is_callback x"
    by (auto simp: observe_def)
  from finish_event_trace [OF fe] obtain u3 where
    u3: "trace s' = trace s3 @ u3" "\<forall>x \<in> set u3. \<not> is_callback x"
    by blast
  from u1 u2 u3 have "trace s' = trace s @ ReadCallback ?p # u1 @ WriteCallback ?p # (u2 @ u3)"
    by simp
  moreover from u1 u2 u3 have "\<forall>x \<in> set u1 \<union> set (u2 @ u3). \<not> is_callback x"
    by auto
  ultimately show ?thesis
    by blast
qed

text \<open>The event of \<open>both_ways\<close> with both directions signalled.\<close>

theorem read_before_write_witness:
  "\<exists>s' t1 t2. reactable_event \<lparr>events = EPOLLIN OR EPOLLOUT, data = 1\<rparr> both_ways = Inr s'
     \<and> trace s' = trace both_ways @ ReadCallback 1 # t1 @ WriteCallback 1 # t2"
proof -
  obtain s' where e: "reactable_event \<lparr>events = EPOLLIN OR EPOLLOUT, data = 1\<rparr> both_ways = Inr s'"
    using both_ways_event by blast
  have "\<exists>t1 t2. trace s' = trace both_ways
           @ ReadCallback (data \<lparr>events = EPOLLIN OR EPOLLOUT, data = 1\<rparr>) # t1
           @ WriteCallback (data \<lparr>events = EPOLLIN OR EPOLLOUT, data = 1\<rparr>) # t2
           \<and> (\<forall>x \<in> set t1 \<union> set t2. \<not> is_callback x)"
    by (rule read_before_write [OF e, of self_unregistering "[CallUnregister 1]" "[]"])
      (simp_all add: both_ways_def self_unregistering_def fresh_reactor_def EPOLLIN_def
        EPOLLOUT_def EPOLLHUP_def EPOLLRDHUP_def EPOLLERR_def)
  with e show ?thesis
    by auto
qed

subsection \<open>Immediate and deferred destruction\<close>

lemma Unregister_immediate:
  assumes "heap s p = Some r" and "\<not> is_executing r" and "Unregister p s = Inr s'"
  shows "heap s' = (heap s)(p := None)
       \<and> (trace s' = trace s @ [Destroyed p]
          \<or> trace s' = trace s @ [Logged InvalidOrUnregistered, Destroyed p])
       \<and> executing_reactable_finished s' = executing_reactable_finished s
       \<and> promises s' = promises s"
  using assms
  by (auto simp: Unregister_def Unregister_invalidate_def Unregister_remove_def bnd_def
      delete_reactable_def observe_def split: if_splits sum.splits)

lemma Unregister_deferred:
  assumes "heap s p = Some r" and "is_executing r" and "Unregister p s = Inr s'"
  shows "heap s' = (heap s)(p \<mapsto> r\<lparr>removed := True, finished_promise := Some (length (promises s))\<rparr>)
       \<and> promises s' = promises s @ [False]
       \<and> executing_reactable_finished s' = Some (length (promises s))
       \<and> (trace s' = trace s \<or> trace s' = trace s @ [Logged InvalidOrUnregistered])"
  using assms
  by (auto simp: Unregister_def Unregister_invalidate_def Unregister_remove_def bnd_def
      make_promise_def observe_def split: if_splits sum.splits)

lemma finish_event_removed:
  assumes "heap s p = Some r" and "removed r" and "finish_event p s = Inr s'"
  shows "\<exists>i. finished_promise r = Some i \<and> trace s' = trace s @ [Fulfilled i, Destroyed p]
           \<and> heap s' = (heap s)(p := None) \<and> promises s' = (promises s)[i := True]"
  using finish_event_cases [OF assms(3)] assms(1,2) by auto

lemma Unregister_remove_deferred:
  assumes "heap s p = Some r" and "is_executing r" and "Unregister_remove p s = Inr s'"
  shows "heap s' = (heap s)(p \<mapsto> r\<lparr>removed := True, finished_promise := Some (length (promises s))\<rparr>)"
  using assms
  by (auto simp: Unregister_remove_def bnd_def make_promise_def observe_def
      split: if_splits sum.splits)

lemma unregisters_removed:
  assumes "unregisters p c" and "exec_call c s = Inr s'" and "heap s p = Some r" and "is_executing r"
  shows "\<exists>r'. heap s' p = Some r' \<and> removed r' \<and> finished_promise r' \<noteq> None"
proof (cases c)
  case (CallUnregister q)
  with assms(1,2) have "Unregister p s = Inr s'" by simp
  from Unregister_deferred [OF assms(3,4) this] show ?thesis by simp
next
  case (CallUnregisterRemove q)
  with assms(1,2) have "Unregister_remove p s = Inr s'" by simp
  from Unregister_remove_deferred [OF assms(3,4) this] show ?thesis by simp
qed (use assms(1) in simp_all)

lemma removal_persists:
  "run_calls cs s = Inr s' \<Longrightarrow> heap s p = Some r \<Longrightarrow> is_executing r \<Longrightarrow>
   (\<exists>c \<in> set cs. unregisters p c) \<or> (removed r \<and> finished_promise r \<noteq> None) \<Longrightarrow>
     \<exists>r'. heap s' p = Some r' \<and> is_executing r' \<and> removed r' \<and> finished_promise r' \<noteq> None"
proof (induction cs arbitrary: s r)
  case Nil
  then show ?case by simp
next
  case (Cons c cs)
  from Cons.prems(1) obtain s1 where c: "exec_call c s = Inr s1" and cs: "run_calls cs s1 = Inr s'"
    by (auto simp: bnd_def split: sum.splits)
  from call_frame_live [OF exec_call_frame [OF c] Cons.prems(2,3)] obtain r1 where
    r1: "heap s1 p = Some r1" "is_executing r1"
      "removed r \<and> finished_promise r \<noteq> None \<longrightarrow> removed r1 \<and> finished_promise r1 \<noteq> None"
    by blast
  have "(\<exists>c \<in> set cs. unregisters p c) \<or> (removed r1 \<and> finished_promise r1 \<noteq> None)"
  proof (cases "unregisters p c")
    case True
    from unregisters_removed [OF True c Cons.prems(2,3)] r1(1) show ?thesis
      by auto
  next
    case False
    with Cons.prems(4) r1(3) show ?thesis by auto
  qed
  with Cons.IH [OF cs r1(1,2)] show ?case .
qed

lemma callback_keeps_executing:
  assumes "read_callback evs p s = Inr s' \<or> write_callback evs p s = Inr s'"
    and "heap s p = Some r" and "is_executing r"
  shows "(\<exists>t. trace s' = trace s @ t \<and> Destroyed p \<notin> set t)
       \<and> (\<exists>r'. heap s' p = Some r' \<and> is_executing r'
              \<and> on_read_ready r' = on_read_ready r \<and> on_write_ready r' = on_write_ready r
              \<and> (removed r \<and> finished_promise r \<noteq> None \<longrightarrow>
                     removed r' \<and> finished_promise r' \<noteq> None))"
proof -
  from assms(1) read_callback_cases [of evs p s s'] write_callback_cases [of evs p s s']
  have "s' = s \<or> (\<exists>x. is_callback x \<and> call_frame (observe x s) s')"
    by auto
  then show ?thesis
  proof
    assume "s' = s"
    with assms(2,3) show ?thesis by simp
  next
    assume "\<exists>x. is_callback x \<and> call_frame (observe x s) s'"
    then obtain x where x: "is_callback x" and f: "call_frame (observe x s) s'"
      by blast
    from assms(2) have h: "heap (observe x s) p = Some r"
      by (simp add: observe_def)
    from f obtain t where t: "trace s' = trace s @ x # t"
      by (auto simp: observe_def dest!: call_frame_lifecycle lifecycle_trace)
    then have "drop (length (trace (observe x s))) (trace s') = t"
      by (simp add: observe_def)
    with call_frame_live [OF f h assms(3)] have "Destroyed p \<notin> set t"
      and r: "\<exists>r'. heap s' p = Some r' \<and> is_executing r'
              \<and> on_read_ready r' = on_read_ready r \<and> on_write_ready r' = on_write_ready r
              \<and> (removed r \<and> finished_promise r \<noteq> None \<longrightarrow>
                     removed r' \<and> finished_promise r' \<noteq> None)"
      by auto
    with x have "Destroyed p \<notin> set (x # t)"
      by auto
    with t r show ?thesis
      by blast
  qed
qed

lemma unregistered_in_callback:
  assumes ev: "reactable_event ev s = Inr s'"
    and live: "heap s (data ev) = Some r"
    and valid: "data ev \<notin> set (invalidation_list s)"
    and cb: "(events ev AND (EPOLLIN OR EPOLLHUP OR EPOLLRDHUP OR EPOLLERR) \<noteq> 0
                \<and> on_read_ready r = Some body)
             \<or> (events ev AND EPOLLOUT \<noteq> 0 \<and> on_write_ready r = Some body)"
    and un: "\<exists>c \<in> set body. unregisters (data ev) c"
  shows "heap s' (data ev) = None
       \<and> (\<exists>i t. trace s' = trace s @ t @ [Fulfilled i, Destroyed (data ev)]
              \<and> Destroyed (data ev) \<notin> set t)"
proof -
  let ?p = "data ev"
  from reactable_event_steps [OF ev] obtain skip s1 where
    b: "begin_event ?p s = Inr (skip, s1)"
    and rest: "if skip then s' = s1
               else \<exists>s2 s3. read_callback (events ev) ?p s1 = Inr s2
                      \<and> write_callback (events ev) ?p s2 = Inr s3
                      \<and> finish_event ?p s3 = Inr s'"
    by blast
  from begin_event_cases [OF b] valid live have ns: "\<not> skip"
    and s1: "s1 = s\<lparr>executing_reactable_finished := None,
                    heap := (heap s)(?p \<mapsto> r\<lparr>is_executing := True\<rparr>)\<rparr>"
    by auto
  from rest ns obtain s2 s3 where rc: "read_callback (events ev) ?p s1 = Inr s2"
    and wc: "write_callback (events ev) ?p s2 = Inr s3"
    and fe: "finish_event ?p s3 = Inr s'"
    by auto
  from s1 have h1: "heap s1 ?p = Some (r\<lparr>is_executing := True\<rparr>)"
    by simp
  from callback_keeps_executing [OF disjI1 [OF rc] h1] obtain r2 u1 where
    r2: "heap s2 ?p = Some r2" "is_executing r2" "on_write_ready r2 = on_write_ready r"
    and u1: "trace s2 = trace s1 @ u1" "Destroyed ?p \<notin> set u1"
    by auto
  from callback_keeps_executing [OF disjI2 [OF wc] r2(1,2)] obtain u2 where
    u2: "trace s3 = trace s2 @ u2" "Destroyed ?p \<notin> set u2"
    by auto
  have "\<exists>r3. heap s3 ?p = Some r3 \<and> removed r3"
    using cb
  proof
    assume c: "events ev AND (EPOLLIN OR EPOLLHUP OR EPOLLRDHUP OR EPOLLERR) \<noteq> 0
                \<and> on_read_ready r = Some body"
    from h1 have h: "heap (observe (ReadCallback ?p) s1) ?p = Some (r\<lparr>is_executing := True\<rparr>)"
      by (simp add: observe_def)
    have e: "is_executing (r\<lparr>is_executing := True\<rparr>)"
      by simp
    from rc h1 c have "run_calls body (observe (ReadCallback ?p) s1) = Inr s2"
      by (simp add: read_callback_def run_closure_def)
    from removal_persists [OF this h e disjI1 [OF un]]
    have "\<exists>r'. heap s2 ?p = Some r' \<and> is_executing r' \<and> removed r'
        \<and> finished_promise r' \<noteq> None" .
    with r2 have "removed r2 \<and> finished_promise r2 \<noteq> None"
      by simp
    with callback_keeps_executing [OF disjI2 [OF wc] r2(1,2)] show ?thesis
      by auto
  next
    assume c: "events ev AND EPOLLOUT \<noteq> 0 \<and> on_write_ready r = Some body"
    from r2 have h: "heap (observe (WriteCallback ?p) s2) ?p = Some r2"
      by (simp add: observe_def)
    from wc r2 c have "run_calls body (observe (WriteCallback ?p) s2) = Inr s3"
      by (simp add: write_callback_def run_closure_def)
    from removal_persists [OF this h r2(2) disjI1 [OF un]]
    show ?thesis by auto
  qed
  then obtain r3 where r3: "heap s3 ?p = Some r3" "removed r3"
    by blast
  from finish_event_removed [OF r3 fe] obtain i where
    i: "trace s' = trace s3 @ [Fulfilled i, Destroyed ?p]" "heap s' = (heap s3)(?p := None)"
    by blast
  from s1 have "trace s1 = trace s"
    by simp
  with u1 u2 have "trace s3 = trace s @ (u1 @ u2)" "Destroyed ?p \<notin> set (u1 @ u2)"
    by simp_all
  with i show ?thesis
    by (metis append.assoc fun_upd_same)
qed

lemma Run_lifecycle:
  assumes "Run script s = Returned s' \<or> Run script s = Blocked s'"
  shows "lifecycle s s'"
proof -
  from assms have n: "\<not> is_running s"
    by (auto simp: Run_def split: if_splits)
  with assms have "dispatch_loop script (- 1) False (s\<lparr>is_running := True\<rparr>) = Returned s'
      \<or> dispatch_loop script (- 1) False (s\<lparr>is_running := True\<rparr>) = Blocked s'"
    by (simp add: Run_def)
  with dispatch_loop_frame [of script "- 1" False "s\<lparr>is_running := True\<rparr>" s']
  have "lifecycle (s\<lparr>is_running := True\<rparr>) s'"
    by (auto simp: loop_frame_def)
  with running_update_frame [of s True] show ?thesis
    by (rule lifecycle_trans)
qed

lemma Run_no_double_free: "Run script s \<noteq> Crashed DoubleFree"
proof
  assume a: "Run script s = Crashed DoubleFree"
  then have "dispatch_loop script (- 1) False (s\<lparr>is_running := True\<rparr>) = Crashed DoubleFree"
    by (auto simp: Run_def split: if_splits)
  then have "DoubleFree \<in> loop_faults"
    by (rule dispatch_loop_faults)
  then show False
    by (simp add: loop_faults_def)
qed

text \<open>What a call that is not \<^verbatim>\<open>Unregister\<close> of a reactable leaves of it.\<close>

lemma finish_event_not_removed:
  "heap s p = Some r \<Longrightarrow> \<not> removed r \<Longrightarrow>
     finish_event p s = Inr (s\<lparr>heap := (heap s)(p \<mapsto> r\<lparr>is_executing := False\<rparr>)\<rparr>)"
  by (simp add: finish_event_def)

lemma exec_call_keeps:
  assumes "exec_call c s = Inr s'" and "heap s p = Some r" and "\<not> unregisters p c"
  shows "heap s' p = Some r \<and> Destroyed p \<notin> set (drop (length (trace s)) (trace s'))"
proof (cases c)
  case CallStop
  with assms show ?thesis
    by (auto simp: Stop_def control_write_def observe_def split: option.splits if_splits)
next
  case (CallRegister f on_read on_write q)
  with assms show ?thesis
    by (auto simp: Register_def bnd_def observe_def split: if_splits sum.splits)
next
  case (CallUnregister q)
  with assms show ?thesis
    by (auto simp: Unregister_def Unregister_invalidate_def Unregister_remove_def bnd_def
        delete_reactable_def make_promise_def observe_def
        split: if_splits sum.splits option.splits)
next
  case (CallUnregisterInvalidate q)
  with assms show ?thesis
    by (auto simp: Unregister_invalidate_def split: if_splits)
next
  case (CallUnregisterRemove q)
  with assms show ?thesis
    by (auto simp: Unregister_remove_def bnd_def
        delete_reactable_def make_promise_def observe_def
        split: if_splits sum.splits option.splits)
next
  case (CallWaitForUnregisteredReactable timeout fulfilled_after)
  with assms show ?thesis
    by (auto simp: WaitForUnregisteredReactable_def Let_def observe_def
        split: option.splits if_splits)
next
  case (CallModifyRegistration q dir)
  with assms show ?thesis
    by (auto simp: ModifyRegistration_def split: if_splits option.splits sum.splits)
next
  case CallWaitForIdle
  with assms show ?thesis
    by (auto simp: WaitForIdle_signal_def make_promise_def control_write_def bnd_def
        split: prod.splits sum.splits option.splits)
qed

lemma run_calls_keeps:
  "run_calls cs s = Inr s' \<Longrightarrow> heap s p = Some r \<Longrightarrow> \<forall>c \<in> set cs. \<not> unregisters p c \<Longrightarrow>
     heap s' p = Some r \<and> Destroyed p \<notin> set (drop (length (trace s)) (trace s'))"
proof (induction cs arbitrary: s)
  case Nil
  then show ?case by simp
next
  case (Cons c cs)
  from Cons.prems(1) obtain s1 where c: "exec_call c s = Inr s1" and cs: "run_calls cs s1 = Inr s'"
    by (auto simp: bnd_def split: sum.splits)
  from Cons.prems(3) have nc: "\<not> unregisters p c" and ncs: "\<forall>c \<in> set cs. \<not> unregisters p c"
    by simp_all
  from exec_call_keeps [OF c Cons.prems(2) nc]
  have h1: "heap s1 p = Some r" and d1: "Destroyed p \<notin> set (drop (length (trace s)) (trace s1))"
    by simp_all
  from Cons.IH [OF cs h1 ncs]
  have h2: "heap s' p = Some r" and d2: "Destroyed p \<notin> set (drop (length (trace s1)) (trace s'))"
    by simp_all
  from c obtain t where t: "trace s1 = trace s @ t"
    by (blast dest: exec_call_frame call_frame_lifecycle lifecycle_trace)
  from cs obtain u where u: "trace s' = trace s1 @ u"
    by (blast dest: run_calls_frame call_frame_lifecycle lifecycle_trace)
  from t u d1 d2 have "Destroyed p \<notin> set (drop (length (trace s)) (trace s'))"
    by simp
  with h2 show ?case
    by simp
qed

lemma closure_keeps:
  assumes "run_closure x body s = Inr s'" and "is_callback x" and "heap s p = Some r"
    and "\<forall>c \<in> set body. \<not> unregisters p c"
  shows "heap s' p = Some r \<and> Destroyed p \<notin> set (drop (length (trace s)) (trace s'))"
proof -
  from assms(1) have r: "run_calls body (observe x s) = Inr s'"
    by (simp add: run_closure_def)
  from assms(3) have h: "heap (observe x s) p = Some r"
    by (simp add: observe_def)
  from run_calls_keeps [OF r h assms(4)]
  have h': "heap s' p = Some r"
    and d: "Destroyed p \<notin> set (drop (length (trace (observe x s))) (trace s'))"
    by simp_all
  from r obtain u where "trace s' = trace (observe x s) @ u"
    by (blast dest: run_calls_frame call_frame_lifecycle lifecycle_trace)
  with d assms(2) have "Destroyed p \<notin> set (drop (length (trace s)) (trace s'))"
    by (auto simp: observe_def)
  with h' show ?thesis
    by simp
qed

lemma callback_keeps:
  assumes "read_callback evs p s = Inr s' \<or> write_callback evs p s = Inr s'"
    and "heap s p = Some r"
    and "\<forall>body. (evs AND (EPOLLIN OR EPOLLHUP OR EPOLLRDHUP OR EPOLLERR) \<noteq> 0
                     \<and> on_read_ready r = Some body)
                 \<or> (evs AND EPOLLOUT \<noteq> 0 \<and> on_write_ready r = Some body) \<longrightarrow>
                 (\<forall>c \<in> set body. \<not> unregisters p c)"
  shows "heap s' p = Some r \<and> Destroyed p \<notin> set (drop (length (trace s)) (trace s'))"
  using assms(1)
proof
  assume a: "read_callback evs p s = Inr s'"
  show ?thesis
  proof (cases "evs AND (EPOLLIN OR EPOLLHUP OR EPOLLRDHUP OR EPOLLERR) \<noteq> 0
      \<and> on_read_ready r \<noteq> None")
    case True
    then obtain body where b: "on_read_ready r = Some body"
      by auto
    with True assms(3) have "\<forall>c \<in> set body. \<not> unregisters p c"
      by blast
    moreover from a True b assms(2) have "run_closure (ReadCallback p) body s = Inr s'"
      by (simp add: read_callback_def)
    ultimately show ?thesis
      using assms(2) by (intro closure_keeps [of "ReadCallback p" body]) simp_all
  next
    case False
    with a assms(2) have "s' = s"
      by (auto simp: read_callback_def split: if_splits)
    with assms(2) show ?thesis by simp
  qed
next
  assume a: "write_callback evs p s = Inr s'"
  show ?thesis
  proof (cases "evs AND EPOLLOUT \<noteq> 0 \<and> on_write_ready r \<noteq> None")
    case True
    then obtain body where b: "on_write_ready r = Some body"
      by auto
    with True assms(3) have "\<forall>c \<in> set body. \<not> unregisters p c"
      by blast
    moreover from a True b assms(2) have "run_closure (WriteCallback p) body s = Inr s'"
      by (simp add: write_callback_def)
    ultimately show ?thesis
      using assms(2) by (intro closure_keeps [of "WriteCallback p" body]) simp_all
  next
    case False
    with a assms(2) have "s' = s"
      by (auto simp: write_callback_def split: if_splits)
    with assms(2) show ?thesis by simp
  qed
qed

lemma untouched_event:
  assumes ev: "reactable_event ev s = Inr s'"
    and live: "heap s (data ev) = Some r"
    and nr: "\<not> removed r"
    and valid: "data ev \<notin> set (invalidation_list s)"
    and un: "\<forall>body. (events ev AND (EPOLLIN OR EPOLLHUP OR EPOLLRDHUP OR EPOLLERR) \<noteq> 0
                     \<and> on_read_ready r = Some body)
                 \<or> (events ev AND EPOLLOUT \<noteq> 0 \<and> on_write_ready r = Some body) \<longrightarrow>
                 (\<forall>c \<in> set body. \<not> unregisters (data ev) c)"
  shows "heap s' (data ev) = Some (r\<lparr>is_executing := False\<rparr>)
       \<and> Destroyed (data ev) \<notin> set (drop (length (trace s)) (trace s'))"
proof -
  let ?p = "data ev"
  let ?r = "r\<lparr>is_executing := True\<rparr>"
  from reactable_event_steps [OF ev] obtain skip s1 where
    b: "begin_event ?p s = Inr (skip, s1)"
    and rest: "if skip then s' = s1
               else \<exists>s2 s3. read_callback (events ev) ?p s1 = Inr s2
                      \<and> write_callback (events ev) ?p s2 = Inr s3
                      \<and> finish_event ?p s3 = Inr s'"
    by blast
  from begin_event_cases [OF b] valid live have ns: "\<not> skip"
    and s1: "s1 = s\<lparr>executing_reactable_finished := None, heap := (heap s)(?p \<mapsto> ?r)\<rparr>"
    by auto
  from rest ns obtain s2 s3 where rc: "read_callback (events ev) ?p s1 = Inr s2"
    and wc: "write_callback (events ev) ?p s2 = Inr s3"
    and fe: "finish_event ?p s3 = Inr s'"
    by auto
  from s1 have h1: "heap s1 ?p = Some ?r" and t1: "trace s1 = trace s"
    by simp_all
  from un have un': "\<forall>body. (events ev AND (EPOLLIN OR EPOLLHUP OR EPOLLRDHUP OR EPOLLERR) \<noteq> 0
                     \<and> on_read_ready ?r = Some body)
                 \<or> (events ev AND EPOLLOUT \<noteq> 0 \<and> on_write_ready ?r = Some body) \<longrightarrow>
                 (\<forall>c \<in> set body. \<not> unregisters ?p c)"
    by simp
  from callback_keeps [OF disjI1 [OF rc] h1 un']
  have h2: "heap s2 ?p = Some ?r" and d2: "Destroyed ?p \<notin> set (drop (length (trace s1)) (trace s2))"
    by simp_all
  from callback_keeps [OF disjI2 [OF wc] h2 un']
  have h3: "heap s3 ?p = Some ?r" and d3: "Destroyed ?p \<notin> set (drop (length (trace s2)) (trace s3))"
    by simp_all
  from nr have "\<not> removed ?r"
    by simp
  from finish_event_not_removed [OF h3 this] fe
  have s': "s' = s3\<lparr>heap := (heap s3)(?p \<mapsto> ?r\<lparr>is_executing := False\<rparr>)\<rparr>"
    by simp
  from rc obtain u2 where u2: "trace s2 = trace s1 @ u2"
    by (blast dest: read_callback_loop_frame lifecycle_trace [OF conjunct1 [OF iffD1 [OF loop_frame_def]]])
  from wc obtain u3 where u3: "trace s3 = trace s2 @ u3"
    by (blast dest: write_callback_loop_frame lifecycle_trace [OF conjunct1 [OF iffD1 [OF loop_frame_def]]])
  from s' t1 u2 u3 d2 d3 have "Destroyed ?p \<notin> set (drop (length (trace s)) (trace s'))"
    by simp
  moreover from s' have "heap s' ?p = Some (r\<lparr>is_executing := False\<rparr>)"
    by simp
  ultimately show ?thesis
    by simp
qed

lemma reactable_event_callbacks:
  assumes "reactable_event ev s = Inr s'"
    and "x \<in> set (drop (length (trace s)) (trace s'))" and "is_callback x"
  shows "x = ReadCallback (data ev) \<or> x = WriteCallback (data ev)"
proof -
  let ?p = "data ev"
  from reactable_event_steps [OF assms(1)] obtain skip s1 where
    b: "begin_event ?p s = Inr (skip, s1)"
    and rest: "if skip then s' = s1
               else \<exists>s2 s3. read_callback (events ev) ?p s1 = Inr s2
                      \<and> write_callback (events ev) ?p s2 = Inr s3
                      \<and> finish_event ?p s3 = Inr s'"
    by blast
  from b have t1: "trace s1 = trace s"
    by (rule begin_event_trace)
  show ?thesis
  proof (cases skip)
    case True
    with rest t1 assms(2) show ?thesis by simp
  next
    case False
    with rest obtain s2 s3 where rc: "read_callback (events ev) ?p s1 = Inr s2"
      and wc: "write_callback (events ev) ?p s2 = Inr s3"
      and fe: "finish_event ?p s3 = Inr s'"
      by auto
    from read_callback_cases [OF rc] obtain u2 where
      u2: "trace s2 = trace s1 @ u2" "\<forall>y \<in> set u2. is_callback y \<longrightarrow> y = ReadCallback ?p"
      by (auto simp: observe_def dest!: call_frame_trace)
    from write_callback_cases [OF wc] obtain u3 where
      u3: "trace s3 = trace s2 @ u3" "\<forall>y \<in> set u3. is_callback y \<longrightarrow> y = WriteCallback ?p"
      by (auto simp: observe_def dest!: call_frame_trace)
    from finish_event_trace [OF fe] obtain u4 where
      u4: "trace s' = trace s3 @ u4" "\<forall>y \<in> set u4. \<not> is_callback y"
      by blast
    from t1 u2 u3 u4 assms(2) have "x \<in> set u2 \<or> x \<in> set u3 \<or> x \<in> set u4"
      by auto
    with u2 u3 u4 assms(3) show ?thesis
      by blast
  qed
qed

text \<open>The event during whose read callback the reactable is unregistered.\<close>

lemma closure_trace:
  assumes "run_closure x body s = Inr s'" and "heap s p = Some r" and "is_executing r"
  shows "\<exists>t. trace s' = trace s @ x # t \<and> (\<forall>y \<in> set t. \<not> is_callback y \<and> y \<noteq> Destroyed p)"
proof -
  from assms(1) have f: "call_frame (observe x s) s'"
    by (auto simp: run_closure_def dest: run_calls_frame)
  from call_frame_trace [OF f] obtain t where
    t: "trace s' = trace s @ x # t" "\<forall>y \<in> set t. \<not> is_callback y"
    by (auto simp: observe_def)
  from assms(2) have "heap (observe x s) p = Some r"
    by (simp add: observe_def)
  from call_frame_live [OF f this assms(3)] t(1) have "Destroyed p \<notin> set t"
    by (simp add: observe_def)
  with t show ?thesis
    by blast
qed

lemma unregistered_then_write:
  assumes ev: "reactable_event ev s = Inr s'"
    and live: "heap s (data ev) = Some r"
    and valid: "data ev \<notin> set (invalidation_list s)"
    and rd: "on_read_ready r = Some rbody"
    and wr: "on_write_ready r = Some wbody"
    and rsig: "events ev AND (EPOLLIN OR EPOLLHUP OR EPOLLRDHUP OR EPOLLERR) \<noteq> 0"
    and wsig: "events ev AND EPOLLOUT \<noteq> 0"
    and un: "\<exists>c \<in> set rbody. unregisters (data ev) c"
  shows "\<exists>t1 t2 i. trace s' = trace s @ ReadCallback (data ev) # t1
                        @ WriteCallback (data ev) # t2 @ [Fulfilled i, Destroyed (data ev)]
           \<and> (\<forall>x \<in> set t1 \<union> set t2. \<not> is_callback x \<and> x \<noteq> Destroyed (data ev))"
proof -
  let ?p = "data ev"
  let ?r = "r\<lparr>is_executing := True\<rparr>"
  from reactable_event_steps [OF ev] obtain skip s1 where
    b: "begin_event ?p s = Inr (skip, s1)"
    and rest: "if skip then s' = s1
               else \<exists>s2 s3. read_callback (events ev) ?p s1 = Inr s2
                      \<and> write_callback (events ev) ?p s2 = Inr s3
                      \<and> finish_event ?p s3 = Inr s'"
    by blast
  from begin_event_cases [OF b] valid live have ns: "\<not> skip"
    and s1: "s1 = s\<lparr>executing_reactable_finished := None, heap := (heap s)(?p \<mapsto> ?r)\<rparr>"
    by auto
  from rest ns obtain s2 s3 where rc: "read_callback (events ev) ?p s1 = Inr s2"
    and wc: "write_callback (events ev) ?p s2 = Inr s3"
    and fe: "finish_event ?p s3 = Inr s'"
    by auto
  from s1 have h1: "heap s1 ?p = Some ?r" and t1: "trace s1 = trace s"
    by simp_all
  have e1: "is_executing ?r"
    by simp
  from rc h1 rd rsig have c1: "run_closure (ReadCallback ?p) rbody s1 = Inr s2"
    by (simp add: read_callback_def)
  from closure_trace [OF c1 h1 e1] t1 obtain u1 where
    u1: "trace s2 = trace s @ ReadCallback ?p # u1"
      "\<forall>y \<in> set u1. \<not> is_callback y \<and> y \<noteq> Destroyed ?p"
    by auto
  from h1 have h1': "heap (observe (ReadCallback ?p) s1) ?p = Some ?r"
    by (simp add: observe_def)
  from c1 have "run_calls rbody (observe (ReadCallback ?p) s1) = Inr s2"
    by (simp add: run_closure_def)
  from removal_persists [OF this h1' e1 disjI1 [OF un]] obtain r2 where
    r2: "heap s2 ?p = Some r2" "is_executing r2" "removed r2" "finished_promise r2 \<noteq> None"
    by blast
  from callback_keeps_executing [OF disjI1 [OF rc] h1 e1] r2(1) wr
  have w2: "on_write_ready r2 = Some wbody"
    by auto
  from wc r2(1) w2 wsig have c2: "run_closure (WriteCallback ?p) wbody s2 = Inr s3"
    by (simp add: write_callback_def)
  from closure_trace [OF c2 r2(1,2)] obtain u2 where
    u2: "trace s3 = trace s2 @ WriteCallback ?p # u2"
      "\<forall>y \<in> set u2. \<not> is_callback y \<and> y \<noteq> Destroyed ?p"
    by auto
  from callback_keeps_executing [OF disjI2 [OF wc] r2(1,2)] r2(3,4) obtain r3 where
    r3: "heap s3 ?p = Some r3" "removed r3"
    by auto
  from finish_event_removed [OF r3 fe] obtain i where
    i: "trace s' = trace s3 @ [Fulfilled i, Destroyed ?p]"
    by blast
  from u1(1) u2(1) i have "trace s' = trace s @ ReadCallback ?p # u1
                        @ WriteCallback ?p # u2 @ [Fulfilled i, Destroyed ?p]"
    by simp
  with u1(2) u2(2) show ?thesis
    by blast
qed

subsection \<open>The bookkeeping of the reactor\<close>

lemma registry_watched:
  "registry cur s \<Longrightarrow> interest (kern s) f = Some ev \<Longrightarrow> data ev \<noteq> nullptr \<Longrightarrow>
     \<exists>r. heap s (data ev) = Some r \<and> rfd r = f \<and> \<not> removed r"
  unfolding registry_def by blast

lemma registry_flags:
  "registry cur s \<Longrightarrow> heap s q = Some r \<Longrightarrow>
     (is_executing r \<longleftrightarrow> cur = Some q)
     \<and> (removed r \<longrightarrow> cur = Some q \<and> q \<in> set (invalidation_list s))
     \<and> (\<forall>i. finished_promise r = Some i \<longrightarrow> i < length (promises s))"
  unfolding registry_def by blast

lemma registry_cur: "registry (Some q) s \<Longrightarrow> \<exists>r. heap s q = Some r \<and> is_executing r"
  unfolding registry_def by blast

lemma registry_idle: "registry cur s \<Longrightarrow> idle_promise s = Some i \<Longrightarrow> i < length (promises s)"
  unfolding registry_def by blast

lemma registryI:
  assumes "\<And>f ev. interest (kern s) f = Some ev \<Longrightarrow> data ev \<noteq> nullptr \<Longrightarrow>
             \<exists>r. heap s (data ev) = Some r \<and> rfd r = f \<and> \<not> removed r"
    and "\<And>q r. heap s q = Some r \<Longrightarrow>
           (is_executing r \<longleftrightarrow> cur = Some q)
           \<and> (removed r \<longrightarrow> cur = Some q \<and> q \<in> set (invalidation_list s))
           \<and> (\<forall>i. finished_promise r = Some i \<longrightarrow> i < length (promises s))"
    and "\<And>q. cur = Some q \<Longrightarrow> heap s q \<noteq> None"
    and "\<And>i. idle_promise s = Some i \<Longrightarrow> i < length (promises s)"
  shows "registry cur s"
  unfolding registry_def using assms by blast

lemma registry_same:
  assumes "registry cur s" and "heap s' = heap s" and "interest (kern s') = interest (kern s)"
    and "set (invalidation_list s) \<subseteq> set (invalidation_list s')"
    and "length (promises s) \<le> length (promises s')"
    and "idle_promise s' = idle_promise s \<or> (\<exists>i. idle_promise s' = Some i \<and> i < length (promises s'))
         \<or> idle_promise s' = None"
  shows "registry cur s'"
proof (rule registryI)
  fix f ev
  assume "interest (kern s') f = Some ev" "data ev \<noteq> nullptr"
  with assms(2,3) registry_watched [OF assms(1), of f ev]
  show "\<exists>r. heap s' (data ev) = Some r \<and> rfd r = f \<and> \<not> removed r"
    by simp
next
  fix q r
  assume "heap s' q = Some r"
  with assms(2) have "heap s q = Some r" by simp
  from registry_flags [OF assms(1) this] assms(4,5)
  show "(is_executing r \<longleftrightarrow> cur = Some q)
           \<and> (removed r \<longrightarrow> cur = Some q \<and> q \<in> set (invalidation_list s'))
           \<and> (\<forall>i. finished_promise r = Some i \<longrightarrow> i < length (promises s'))"
    by (auto simp: subset_iff)
next
  fix q
  assume "cur = Some q"
  with assms(1,2) show "heap s' q \<noteq> None"
    by (auto dest: registry_cur)
next
  fix i
  assume "idle_promise s' = Some i"
  with assms(6,5) registry_idle [OF assms(1), of i] show "i < length (promises s')"
    by auto
qed

lemma registry_cong:
  "heap s' = heap s \<Longrightarrow> interest (kern s') = interest (kern s) \<Longrightarrow>
   invalidation_list s' = invalidation_list s \<Longrightarrow> promises s' = promises s \<Longrightarrow>
   idle_promise s' = idle_promise s \<Longrightarrow> registry cur s' = registry cur s"
  by (simp add: registry_def)

lemma control_write_registry:
  assumes "control_write v s = Inr s'" and "registry cur s"
  shows "registry cur s'"
  by (rule registry_same [OF assms(2)])
    (use assms(1) in \<open>auto simp: control_write_def split: option.splits\<close>)

lemma observe_registry: "registry cur (observe x s) = registry cur s"
  by (simp add: registry_def observe_def)

lemma Stop_registry:
  assumes "Stop s = Inr s'" and "registry cur s"
  shows "registry cur s'"
  by (rule registry_same [OF assms(2)])
    (use assms(1) in \<open>auto simp: Stop_def control_write_def observe_def split: option.splits if_splits\<close>)

lemma WaitForUnregisteredReactable_registry:
  "registry cur (snd (WaitForUnregisteredReactable timeout fulfilled_after s)) = registry cur s"
  by (simp add: WaitForUnregisteredReactable_def Let_def observe_registry split: option.splits)

lemma WaitForIdle_signal_registry:
  assumes "WaitForIdle_signal s = Inr (i, s')" and "registry cur s"
  shows "registry cur s'"
  by (rule registry_same [OF assms(2)])
    (use assms(1) in \<open>auto simp: WaitForIdle_signal_def make_promise_def control_write_def bnd_def
        split: option.splits sum.splits\<close>)

lemma ModifyRegistration_shape:
  assumes "ModifyRegistration p dir s = Inr s'" and "heap s p = Some r"
  shows "\<exists>k. s' = s\<lparr>kern := k\<rparr> \<and> p \<noteq> nullptr
           \<and> interest k = (interest (kern s))(rfd r \<mapsto> \<lparr>events = modify_events dir, data = p\<rparr>)"
  using assms
  by (auto simp: ModifyRegistration_def epoll_ctl_def split: if_splits sum.splits)

lemma ModifyRegistration_registry:
  assumes "ModifyRegistration p dir s = Inr s'" and "heap s p = Some r" and "\<not> removed r"
    and "registry cur s"
  shows "registry cur s'"
proof (rule registryI)
  from ModifyRegistration_shape [OF assms(1,2)] obtain k where s': "s' = s\<lparr>kern := k\<rparr>"
    and k: "interest k = (interest (kern s))(rfd r \<mapsto> \<lparr>events = modify_events dir, data = p\<rparr>)"
    by blast
  {
    fix f ev
    assume a: "interest (kern s') f = Some ev" "data ev \<noteq> nullptr"
    show "\<exists>r. heap s' (data ev) = Some r \<and> rfd r = f \<and> \<not> removed r"
    proof (cases "f = rfd r")
      case True
      with a s' k have "data ev = p"
        by auto
      with True assms(2,3) s' show ?thesis by simp
    next
      case False
      with a s' k have "interest (kern s) f = Some ev"
        by auto
      from registry_watched [OF assms(4) this a(2)] s' show ?thesis by simp
    qed
  next
    fix q r'
    assume "heap s' q = Some r'"
    with s' have "heap s q = Some r'" by simp
    from registry_flags [OF assms(4) this] s'
    show "(is_executing r' \<longleftrightarrow> cur = Some q)
           \<and> (removed r' \<longrightarrow> cur = Some q \<and> q \<in> set (invalidation_list s'))
           \<and> (\<forall>i. finished_promise r' = Some i \<longrightarrow> i < length (promises s'))"
      by simp
  next
    fix q
    assume "cur = Some q"
    with assms(4) s' show "heap s' q \<noteq> None"
      by (auto dest: registry_cur)
  next
    fix i
    assume "idle_promise s' = Some i"
    with s' registry_idle [OF assms(4), of i] show "i < length (promises s')"
      by simp
  }
qed


lemma Register_shape:
  assumes "Register f on_read on_write p s = Inr (q, s')"
  shows "\<exists>k. s' = s\<lparr>heap := (heap s)(p \<mapsto>
                      \<lparr>rfd = f, on_read_ready = on_read, on_write_ready = on_write,
                       is_executing = False, removed = False, finished_promise = None\<rparr>),
                    kern := k, trace := trace s @ [Allocated p]\<rparr>
           \<and> interest k = (interest (kern s))(f \<mapsto>
                  \<lparr>events = register_events on_read on_write, data = p\<rparr>)
           \<and> p \<noteq> nullptr \<and> heap s p = None"
  using assms
  by (auto simp: Register_def epoll_ctl_def observe_def split: if_splits sum.splits)

lemma Register_registry:
  assumes "Register f on_read on_write p s = Inr (q, s')" and "registry cur s"
  shows "registry cur s'"
proof (rule registryI)
  let ?r = "\<lparr>rfd = f, on_read_ready = on_read, on_write_ready = on_write,
             is_executing = False, removed = False, finished_promise = None\<rparr>"
  from Register_shape [OF assms(1)] obtain k where
    s': "s' = s\<lparr>heap := (heap s)(p \<mapsto> ?r), kern := k, trace := trace s @ [Allocated p]\<rparr>"
    and k: "interest k = (interest (kern s))(f \<mapsto>
                  \<lparr>events = register_events on_read on_write, data = p\<rparr>)"
    and p: "p \<noteq> nullptr" "heap s p = None"
    by blast
  from p(2) assms(2) have c: "cur \<noteq> Some p"
    by (auto dest: registry_cur)
  {
    fix g ev
    assume a: "interest (kern s') g = Some ev" "data ev \<noteq> nullptr"
    show "\<exists>r. heap s' (data ev) = Some r \<and> rfd r = g \<and> \<not> removed r"
    proof (cases "g = f")
      case True
      with a s' k show ?thesis by auto
    next
      case False
      with a s' k have "interest (kern s) g = Some ev"
        by auto
      from registry_watched [OF assms(2) this a(2)] p(2) s' show ?thesis by auto
    qed
  next
    fix q r'
    assume h: "heap s' q = Some r'"
    show "(is_executing r' \<longleftrightarrow> cur = Some q)
           \<and> (removed r' \<longrightarrow> cur = Some q \<and> q \<in> set (invalidation_list s'))
           \<and> (\<forall>i. finished_promise r' = Some i \<longrightarrow> i < length (promises s'))"
    proof (cases "q = p")
      case True
      with h s' c show ?thesis by auto
    next
      case False
      with h s' have "heap s q = Some r'" by simp
      from registry_flags [OF assms(2) this] s' show ?thesis by simp
    qed
  next
    fix q
    assume "cur = Some q"
    with assms(2) s' show "heap s' q \<noteq> None"
      by (auto dest: registry_cur)
  next
    fix i
    assume "idle_promise s' = Some i"
    with s' registry_idle [OF assms(2), of i] show "i < length (promises s')"
      by simp
  }
qed

lemma Unregister_shape:
  assumes "Unregister p s = Inr s'" and "heap s p = Some r"
  shows "interest (kern s') = (interest (kern s))(rfd r := None)
       \<and> invalidation_list s' = invalidation_list s @ [p]
       \<and> idle_promise s' = idle_promise s
       \<and> (if is_executing r
           then heap s' = (heap s)(p \<mapsto> r\<lparr>removed := True,
                                            finished_promise := Some (length (promises s))\<rparr>)
                \<and> promises s' = promises s @ [False]
           else heap s' = (heap s)(p := None) \<and> promises s' = promises s)"
  using assms
  by (auto simp: Unregister_def Unregister_invalidate_def Unregister_remove_def bnd_def
      delete_reactable_def make_promise_def observe_def epoll_ctl_def
      split: if_splits sum.splits epoll_op.splits)

lemma Unregister_registry:
  assumes "Unregister p s = Inr s'" and "heap s p = Some r" and "\<not> removed r"
    and "registry cur s"
  shows "registry cur s'"
proof (rule registryI)
  note sh = Unregister_shape [OF assms(1,2)]
  from sh have i': "interest (kern s') = (interest (kern s))(rfd r := None)"
    and l': "invalidation_list s' = invalidation_list s @ [p]"
    and ip: "idle_promise s' = idle_promise s"
    by simp_all
  from sh have h': "\<And>q. q \<noteq> p \<Longrightarrow> heap s' q = heap s q"
    by (auto split: if_splits)
  from sh have pl: "length (promises s) \<le> length (promises s')"
    by (auto split: if_splits)
  {
    fix f ev
    assume a: "interest (kern s') f = Some ev" "data ev \<noteq> nullptr"
    with i' have f: "f \<noteq> rfd r" and "interest (kern s) f = Some ev"
      by (auto split: if_splits)
    from registry_watched [OF assms(4) this(2) a(2)] obtain r0 where
      r0: "heap s (data ev) = Some r0" "rfd r0 = f" "\<not> removed r0"
      by blast
    with f assms(2) have "data ev \<noteq> p"
      by auto
    with r0 h' show "\<exists>r. heap s' (data ev) = Some r \<and> rfd r = f \<and> \<not> removed r"
      by simp
  next
    fix q r'
    assume h: "heap s' q = Some r'"
    show "(is_executing r' \<longleftrightarrow> cur = Some q)
           \<and> (removed r' \<longrightarrow> cur = Some q \<and> q \<in> set (invalidation_list s'))
           \<and> (\<forall>i. finished_promise r' = Some i \<longrightarrow> i < length (promises s'))"
    proof (cases "q = p")
      case True
      with h sh have e: "is_executing r"
        and r': "r' = r\<lparr>removed := True, finished_promise := Some (length (promises s))\<rparr>"
        and "promises s' = promises s @ [False]"
        by (auto split: if_splits)
      with registry_flags [OF assms(4,2)] True l' show ?thesis
        by simp
    next
      case False
      with h h' have "heap s q = Some r'" by simp
      from registry_flags [OF assms(4) this] l' pl show ?thesis
        by auto
    qed
  next
    fix q
    assume c: "cur = Some q"
    show "heap s' q \<noteq> None"
    proof (cases "q = p")
      case True
      with c registry_flags [OF assms(4,2)] have "is_executing r" by simp
      with sh True show ?thesis by simp
    next
      case False
      with c assms(4) h' show ?thesis
        by (auto dest: registry_cur)
    qed
  next
    fix i
    assume "idle_promise s' = Some i"
    with ip pl registry_idle [OF assms(4), of i] show "i < length (promises s')"
      by simp
  }
qed

lemma exec_call_registry:
  assumes "exec_call c s = Inr s'" and "obeys c s" and "registry cur s"
  shows "registry cur s'"
proof (cases c)
  case CallStop
  with assms show ?thesis by (simp add: Stop_registry)
next
  case (CallRegister f on_read on_write p)
  with assms(1) obtain q where "Register f on_read on_write p s = Inr (q, s')"
    by (auto simp: bnd_def split: sum.splits)
  then show ?thesis using assms(3) by (rule Register_registry)
next
  case (CallUnregister p)
  with assms(2) obtain r where "heap s p = Some r" "\<not> removed r"
    by (auto split: option.splits)
  with CallUnregister assms(1,3) show ?thesis
    by (auto intro: Unregister_registry)
next
  case (CallUnregisterInvalidate p)
  with assms(2) show ?thesis by simp
next
  case (CallUnregisterRemove p)
  with assms(2) show ?thesis by simp
next
  case (CallWaitForUnregisteredReactable timeout fulfilled_after)
  with assms(1,3) show ?thesis
    by (auto simp: WaitForUnregisteredReactable_registry)
next
  case (CallModifyRegistration p dir)
  with assms(2) obtain r where "heap s p = Some r" "\<not> removed r"
    by (auto split: option.splits)
  with CallModifyRegistration assms(1,3) show ?thesis
    by (auto intro: ModifyRegistration_registry)
next
  case CallWaitForIdle
  with assms(1) obtain i where "WaitForIdle_signal s = Inr (i, s')"
    by (auto simp: bnd_def split: sum.splits)
  then show ?thesis using assms(3) by (rule WaitForIdle_signal_registry)
qed

lemma exec_call_safe:
  assumes "exec_call c s = Inl e" and "obeys c s"
  shows "\<not> memory_fault e"
proof (cases c)
  case CallStop
  with assms(1) show ?thesis
    by (auto simp: Stop_def memory_fault_def dest: control_write_faults)
next
  case (CallRegister f on_read on_write p)
  with assms(1) show ?thesis
    by (auto simp: Register_def bnd_def memory_fault_def split: if_splits sum.splits)
next
  case (CallUnregister p)
  with assms(2) obtain r where "heap s p = Some r"
    by (auto split: option.splits)
  with CallUnregister assms(1) show ?thesis
    by (auto simp: Unregister_def Unregister_invalidate_def Unregister_remove_def bnd_def
        delete_reactable_def make_promise_def observe_def memory_fault_def
        split: if_splits sum.splits)
next
  case (CallUnregisterInvalidate p)
  with assms(2) show ?thesis by simp
next
  case (CallUnregisterRemove p)
  with assms(2) show ?thesis by simp
next
  case (CallWaitForUnregisteredReactable timeout fulfilled_after)
  with assms(1) show ?thesis by simp
next
  case (CallModifyRegistration p dir)
  with assms(2) obtain r where "heap s p = Some r"
    by (auto split: option.splits)
  with CallModifyRegistration assms(1) show ?thesis
    by (auto simp: ModifyRegistration_def memory_fault_def split: if_splits sum.splits)
next
  case CallWaitForIdle
  with assms(1) show ?thesis
    by (auto simp: WaitForIdle_signal_def bnd_def memory_fault_def split: prod.splits sum.splits
        dest: control_write_faults)
qed

lemma exec_call_covers:
  assumes "exec_call c s = Inr s'" and "obeys c s" and "covers s q"
  shows "covers s' q"
proof (cases c)
  case CallStop
  with assms show ?thesis
    by (auto simp: Stop_def control_write_def observe_def covers_def split: option.splits if_splits)
next
  case (CallRegister f on_read on_write p)
  with assms show ?thesis
    by (auto simp: covers_def bnd_def split: sum.splits if_splits dest!: Register_shape)
next
  case (CallUnregister p)
  with assms(2) obtain r where "heap s p = Some r"
    by (auto split: option.splits)
  from Unregister_shape [OF _ this, of s'] CallUnregister assms(1,3) show ?thesis
    by (auto simp: covers_def split: if_splits)
next
  case (CallUnregisterInvalidate p)
  with assms(2) show ?thesis by simp
next
  case (CallUnregisterRemove p)
  with assms(2) show ?thesis by simp
next
  case (CallWaitForUnregisteredReactable timeout fulfilled_after)
  with assms show ?thesis
    by (auto simp: WaitForUnregisteredReactable_def Let_def observe_def covers_def
        split: option.splits if_splits)
next
  case (CallModifyRegistration p dir)
  with assms show ?thesis
    by (auto simp: ModifyRegistration_def covers_def split: if_splits option.splits sum.splits)
next
  case CallWaitForIdle
  with assms show ?thesis
    by (auto simp: WaitForIdle_signal_def make_promise_def control_write_def bnd_def covers_def
        split: prod.splits sum.splits option.splits)
qed

lemma run_calls_sound:
  "calls_obey cs s \<Longrightarrow> registry cur s \<Longrightarrow>
     (case run_calls cs s of
        Inl e \<Rightarrow> \<not> memory_fault e
      | Inr s' \<Rightarrow> registry cur s' \<and> (\<forall>q. covers s q \<longrightarrow> covers s' q))"
proof (induction cs arbitrary: s)
  case Nil
  then show ?case by simp
next
  case (Cons c cs)
  from Cons.prems(1) have o: "obeys c s" by simp
  show ?case
  proof (cases "exec_call c s")
    case (Inl e)
    with exec_call_safe [OF Inl o] show ?thesis
      by (simp add: bnd_def)
  next
    case (Inr s1)
    with Cons.prems(1) have o1: "calls_obey cs s1" by simp
    from exec_call_registry [OF Inr o Cons.prems(2)] have r1: "registry cur s1" .
    from Cons.IH [OF o1 r1] Inr exec_call_covers [OF Inr o] show ?thesis
      by (auto simp: bnd_def split: sum.splits)
  qed
qed

lemma covers_observe: "covers (observe x s) q = covers s q"
  by (simp add: covers_def observe_def)

lemma read_callback_sound:
  assumes "read_obeys evs p s" and "registry (Some p) s"
  shows "case read_callback evs p s of
           Inl e \<Rightarrow> \<not> memory_fault e
         | Inr s' \<Rightarrow> registry (Some p) s' \<and> (\<forall>q. covers s q \<longrightarrow> covers s' q)"
proof -
  from registry_cur [OF assms(2)] obtain r where r: "heap s p = Some r"
    by blast
  show ?thesis
  proof (cases "evs AND (EPOLLIN OR EPOLLHUP OR EPOLLRDHUP OR EPOLLERR) \<noteq> 0
      \<and> on_read_ready r \<noteq> None")
    case True
    then obtain body where b: "on_read_ready r = Some body"
      by auto
    from True b r assms(1) have o: "calls_obey body (observe (ReadCallback p) s)"
      by (simp add: read_obeys_def)
    from assms(2) have g: "registry (Some p) (observe (ReadCallback p) s)"
      by (simp add: observe_registry)
    from True b r have "read_callback evs p s = run_calls body (observe (ReadCallback p) s)"
      by (simp add: read_callback_def run_closure_def)
    with run_calls_sound [OF o g] show ?thesis
      by (auto simp: covers_observe split: sum.splits)
  next
    case False
    with r have "read_callback evs p s = Inr s"
      by (auto simp: read_callback_def)
    with assms(2) show ?thesis by simp
  qed
qed

lemma write_callback_sound:
  assumes "write_obeys evs p s" and "registry (Some p) s"
  shows "case write_callback evs p s of
           Inl e \<Rightarrow> \<not> memory_fault e
         | Inr s' \<Rightarrow> registry (Some p) s' \<and> (\<forall>q. covers s q \<longrightarrow> covers s' q)"
proof -
  from registry_cur [OF assms(2)] obtain r where r: "heap s p = Some r"
    by blast
  show ?thesis
  proof (cases "evs AND EPOLLOUT \<noteq> 0 \<and> on_write_ready r \<noteq> None")
    case True
    then obtain body where b: "on_write_ready r = Some body"
      by auto
    from True b r assms(1) have o: "calls_obey body (observe (WriteCallback p) s)"
      by (simp add: write_obeys_def)
    from assms(2) have g: "registry (Some p) (observe (WriteCallback p) s)"
      by (simp add: observe_registry)
    from True b r have "write_callback evs p s = run_calls body (observe (WriteCallback p) s)"
      by (simp add: write_callback_def run_closure_def)
    with run_calls_sound [OF o g] show ?thesis
      by (auto simp: covers_observe split: sum.splits)
  next
    case False
    with r have "write_callback evs p s = Inr s"
      by (auto simp: write_callback_def)
    with assms(2) show ?thesis by simp
  qed
qed

lemma begin_event_sound:
  assumes "registry None s" and "covers s p"
  shows "\<exists>skip s1. begin_event p s = Inr (skip, s1)
           \<and> registry (if skip then None else Some p) s1
           \<and> (\<forall>q. covers s q \<longrightarrow> covers s1 q)"
proof (cases "p \<in> set (invalidation_list s)")
  case True
  then have "begin_event p s = Inr (True, s\<lparr>executing_reactable_finished := None\<rparr>)"
    by (simp add: begin_event_def)
  moreover from assms(1) have "registry None (s\<lparr>executing_reactable_finished := None\<rparr>)"
    by (simp add: registry_cong [of "s\<lparr>executing_reactable_finished := None\<rparr>" s])
  moreover have "\<forall>q. covers s q \<longrightarrow> covers (s\<lparr>executing_reactable_finished := None\<rparr>) q"
    by (simp add: covers_def)
  ultimately show ?thesis
    by (intro exI [of _ True] exI [of _ "s\<lparr>executing_reactable_finished := None\<rparr>"]) simp
next
  case False
  with assms(2) obtain r where r: "heap s p = Some r"
    by (auto simp: covers_def)
  let ?s1 = "s\<lparr>executing_reactable_finished := None,
               heap := (heap s)(p \<mapsto> r\<lparr>is_executing := True\<rparr>)\<rparr>"
  from False r have b: "begin_event p s = Inr (False, ?s1)"
    by (simp add: begin_event_def)
  have "registry (Some p) ?s1"
  proof (rule registryI)
    fix f ev
    assume "interest (kern ?s1) f = Some ev" "data ev \<noteq> nullptr"
    with registry_watched [OF assms(1), of f ev] r
    show "\<exists>r. heap ?s1 (data ev) = Some r \<and> rfd r = f \<and> \<not> removed r"
      by auto
  next
    fix q r'
    assume h: "heap ?s1 q = Some r'"
    show "(is_executing r' \<longleftrightarrow> Some p = Some q)
           \<and> (removed r' \<longrightarrow> Some p = Some q \<and> q \<in> set (invalidation_list ?s1))
           \<and> (\<forall>i. finished_promise r' = Some i \<longrightarrow> i < length (promises ?s1))"
    proof (cases "q = p")
      case True
      with h registry_flags [OF assms(1) r] show ?thesis by auto
    next
      case False
      with h have "heap s q = Some r'" by simp
      from registry_flags [OF assms(1) this] False show ?thesis by auto
    qed
  next
    fix q
    assume "Some p = Some q"
    then show "heap ?s1 q \<noteq> None" by auto
  next
    fix i
    assume "idle_promise ?s1 = Some i"
    with registry_idle [OF assms(1), of i] show "i < length (promises ?s1)"
      by simp
  qed
  with b show ?thesis
    by (auto simp: covers_def)
qed

lemma finish_event_sound:
  assumes "registry (Some p) s"
  shows "case finish_event p s of
           Inl e \<Rightarrow> \<not> memory_fault e
         | Inr s' \<Rightarrow> registry None s' \<and> (\<forall>q. covers s q \<longrightarrow> covers s' q)"
proof -
  from registry_cur [OF assms] obtain r where r: "heap s p = Some r" and e: "is_executing r"
    by blast
  note fl = registry_flags [OF assms r]
  have others: "\<not> is_executing r' \<and> \<not> removed r'
      \<and> (\<forall>i. finished_promise r' = Some i \<longrightarrow> i < length (promises s))"
    if "heap s q = Some r'" "q \<noteq> p" for q r'
    using registry_flags [OF assms that(1)] that(2) by auto
  show ?thesis
  proof (cases "removed r")
    case False
    let ?s' = "s\<lparr>heap := (heap s)(p \<mapsto> r\<lparr>is_executing := False\<rparr>)\<rparr>"
    from r False have f: "finish_event p s = Inr ?s'"
      by (simp add: finish_event_def)
    have "registry None ?s'"
    proof (rule registryI)
      fix f ev
      assume "interest (kern ?s') f = Some ev" "data ev \<noteq> nullptr"
      with registry_watched [OF assms, of f ev] r
      show "\<exists>r. heap ?s' (data ev) = Some r \<and> rfd r = f \<and> \<not> removed r"
        by auto
    next
      fix q r'
      assume h: "heap ?s' q = Some r'"
      show "(is_executing r' \<longleftrightarrow> None = Some q)
           \<and> (removed r' \<longrightarrow> None = Some q \<and> q \<in> set (invalidation_list ?s'))
           \<and> (\<forall>i. finished_promise r' = Some i \<longrightarrow> i < length (promises ?s'))"
      proof (cases "q = p")
        case True
        with h fl False show ?thesis by auto
      next
        case False
        with h have "heap s q = Some r'" by simp
        from others [OF this False] show ?thesis by simp
      qed
    next
      fix q :: ptr
      assume "None = Some q"
      then show "heap ?s' q \<noteq> None" by simp
    next
      fix i
      assume "idle_promise ?s' = Some i"
      with registry_idle [OF assms, of i] show "i < length (promises ?s')"
        by simp
    qed
    with f show ?thesis
      by (auto simp: covers_def)
  next
    case True
    show ?thesis
    proof (cases "finish_event p s")
      case (Inl x)
      have "x \<noteq> UseAfterFree \<and> x \<noteq> DoubleFree"
      proof (cases "finished_promise r")
        case None
        with Inl r True show ?thesis
          by (simp add: finish_event_def)
      next
        case (Some i)
        with fl have "i < length (promises s)" by simp
        with Inl r True Some show ?thesis
          by (auto simp: finish_event_def Let_def bnd_def set_value_def delete_reactable_def
              observe_def split: if_splits sum.splits)
      qed
      with Inl show ?thesis
        by (simp add: memory_fault_def)
    next
      case (Inr s')
      from finish_event_cases [OF Inr] r True obtain i where
        s': "s' = s\<lparr>heap := (heap s)(p := None), promises := (promises s)[i := True],
                    trace := trace s @ [Fulfilled i, Destroyed p]\<rparr>"
        by auto
      have "registry None s'"
      proof (rule registryI)
        fix f ev
        assume a: "interest (kern s') f = Some ev" "data ev \<noteq> nullptr"
        with s' have "interest (kern s) f = Some ev" by simp
        from registry_watched [OF assms this a(2)] obtain r0 where
          r0: "heap s (data ev) = Some r0" "rfd r0 = f" "\<not> removed r0"
          by blast
        with r True have "data ev \<noteq> p" by auto
        with r0 s' show "\<exists>r. heap s' (data ev) = Some r \<and> rfd r = f \<and> \<not> removed r"
          by simp
      next
        fix q r'
        assume h: "heap s' q = Some r'"
        with s' have "q \<noteq> p" and "heap s q = Some r'"
          by (auto split: if_splits)
        from others [OF this(2,1)] s'
        show "(is_executing r' \<longleftrightarrow> None = Some q)
           \<and> (removed r' \<longrightarrow> None = Some q \<and> q \<in> set (invalidation_list s'))
           \<and> (\<forall>i. finished_promise r' = Some i \<longrightarrow> i < length (promises s'))"
          by simp
      next
        fix q :: ptr
        assume "None = Some q"
        then show "heap s' q \<noteq> None" by simp
      next
        fix j
        assume "idle_promise s' = Some j"
        with s' registry_idle [OF assms, of j] show "j < length (promises s')"
          by simp
      qed
      moreover from fl True have "p \<in> set (invalidation_list s)"
        by simp
      with s' have "\<forall>q. covers s q \<longrightarrow> covers s' q"
        by (auto simp: covers_def)
      ultimately show ?thesis
        using Inr by simp
    qed
  qed
qed

lemma reactable_event_sound:
  assumes "registry None s" and "covers s (data ev)" and "event_obeys ev s"
  shows "case reactable_event ev s of
           Inl e \<Rightarrow> \<not> memory_fault e
         | Inr s' \<Rightarrow> registry None s' \<and> (\<forall>q. covers s q \<longrightarrow> covers s' q)"
proof -
  let ?p = "data ev"
  from begin_event_sound [OF assms(1,2)] obtain skip s1 where
    b: "begin_event ?p s = Inr (skip, s1)"
    and g1: "registry (if skip then None else Some ?p) s1"
    and c1: "\<forall>q. covers s q \<longrightarrow> covers s1 q"
    by blast
  show ?thesis
  proof (cases skip)
    case True
    with b g1 c1 show ?thesis
      by (simp add: reactable_event_def bnd_def)
  next
    case False
    with g1 have g1': "registry (Some ?p) s1" by simp
    from assms(3) b False have ro: "read_obeys (events ev) ?p s1"
      and wo: "case read_callback (events ev) ?p s1 of
                 Inl e \<Rightarrow> True | Inr s2 \<Rightarrow> write_obeys (events ev) ?p s2"
      by (simp_all add: event_obeys_def)
    show ?thesis
    proof (cases "read_callback (events ev) ?p s1")
      case (Inl e)
      with read_callback_sound [OF ro g1'] b False show ?thesis
        by (simp add: reactable_event_def bnd_def)
    next
      case rc: (Inr s2)
      with read_callback_sound [OF ro g1'] have g2: "registry (Some ?p) s2"
        and c2: "\<forall>q. covers s1 q \<longrightarrow> covers s2 q"
        by simp_all
      from wo rc have wo': "write_obeys (events ev) ?p s2" by simp
      show ?thesis
      proof (cases "write_callback (events ev) ?p s2")
        case (Inl e)
        with write_callback_sound [OF wo' g2] b False rc show ?thesis
          by (simp add: reactable_event_def bnd_def)
      next
        case wc: (Inr s3)
        with write_callback_sound [OF wo' g2] have g3: "registry (Some ?p) s3"
          and c3: "\<forall>q. covers s2 q \<longrightarrow> covers s3 q"
          by simp_all
        from b False rc wc have "reactable_event ev s = finish_event ?p s3"
          by (simp add: reactable_event_def bnd_def)
        with finish_event_sound [OF g3] c1 c2 c3 show ?thesis
          by (auto split: sum.splits)
      qed
    qed
  qed
qed

lemma control_command_sound:
  assumes "registry cur s"
  shows "case control_command v t w s of
           Stopped s' \<Rightarrow> registry cur s'
         | Running t' w' s' \<Rightarrow> registry cur s' \<and> (\<forall>q. covers s q \<longrightarrow> covers s' q)"
proof -
  from assms have "registry cur (s\<lparr>is_running := False\<rparr>)"
    by (simp add: registry_cong [of "s\<lparr>is_running := False\<rparr>" s])
  moreover from assms have "registry cur (observe (Logged (UnknownControlValue v)) s)"
    by (simp add: observe_registry)
  ultimately show ?thesis
    using assms by (simp add: control_command_def covers_observe)
qed

lemma control_event_sound:
  assumes "registry cur s"
  shows "case control_event t w s of
           Inl e \<Rightarrow> \<not> memory_fault e
         | Inr (Stopped s') \<Rightarrow> registry cur s'
         | Inr (Running t' w' s') \<Rightarrow> registry cur s' \<and> (\<forall>q. covers s q \<longrightarrow> covers s' q)"
proof (cases "control_event t w s")
  case (Inl e)
  then show ?thesis
    by (auto simp: control_event_def memory_fault_def split: option.splits)
next
  case (Inr l)
  then obtain v k where l: "l = control_command v t w (s\<lparr>kern := k\<rparr>)"
    and k: "interest k = interest (kern s)"
    by (auto simp: control_event_def split: option.splits prod.splits)
  from assms k have g: "registry cur (s\<lparr>kern := k\<rparr>)"
    by (simp add: registry_cong [of "s\<lparr>kern := k\<rparr>" s])
  have c: "covers (s\<lparr>kern := k\<rparr>) q = covers s q" for q
    by (simp add: covers_def)
  show ?thesis
  proof (cases "control_command v t w (s\<lparr>kern := k\<rparr>)")
    case (Stopped s')
    with control_command_sound [OF g, of v t w] l Inr show ?thesis
      by simp
  next
    case (Running t' w' s')
    with control_command_sound [OF g, of v t w] l Inr c show ?thesis
      by simp
  qed
qed

lemma process_batch_sound:
  "registry None s \<Longrightarrow> \<forall>ev \<in> set evs. data ev \<noteq> nullptr \<longrightarrow> covers s (data ev) \<Longrightarrow>
   batch_obeys evs css t w s \<Longrightarrow>
     (case process_batch evs css t w s of
        Inl e \<Rightarrow> \<not> memory_fault e
      | Inr (Stopped s') \<Rightarrow> registry None s'
      | Inr (Running t' w' s') \<Rightarrow> registry None s')"
proof (induction evs arbitrary: css t w s)
  case Nil
  then show ?case by simp
next
  case (Cons ev evs)
  let ?cs = "case css of [] \<Rightarrow> [] | cs # _ \<Rightarrow> cs"
  from Cons.prems(3) have o: "calls_obey ?cs s"
    by simp
  show ?case
  proof (cases "run_calls ?cs s")
    case (Inl e)
    with run_calls_sound [OF o Cons.prems(1)] show ?thesis
      by simp
  next
    case (Inr s1)
    with run_calls_sound [OF o Cons.prems(1)] have g1: "registry None s1"
      and c1: "\<forall>q. covers s q \<longrightarrow> covers s1 q"
      by simp_all
    show ?thesis
    proof (cases "events ev = 0")
      case True
      with Inr show ?thesis by (simp add: memory_fault_def)
    next
      case nz: False
      show ?thesis
      proof (cases "data ev = nullptr")
        case True
        show ?thesis
        proof (cases "control_event t w s1")
          case (Inl e)
          with control_event_sound [OF g1, of t w] Inr nz True show ?thesis
            by simp
        next
          case ce: (Inr l)
          show ?thesis
          proof (cases l)
            case (Stopped s2)
            with control_event_sound [OF g1, of t w] Inr nz True ce show ?thesis
              by simp
          next
            case (Running t' w' s2)
            with control_event_sound [OF g1, of t w] ce have g2: "registry None s2"
              and c2: "\<forall>q. covers s1 q \<longrightarrow> covers s2 q"
              by simp_all
            from Cons.prems(2) c1 c2
            have cv: "\<forall>ev \<in> set evs. data ev \<noteq> nullptr \<longrightarrow> covers s2 (data ev)"
              by simp
            from Cons.prems(3) Inr nz True ce Running
            have bo: "batch_obeys evs (tl css) t' w' s2"
              by simp
            from Cons.IH [OF g2 cv bo] Inr nz True ce Running show ?thesis
              by simp
          qed
        qed
      next
        case False
        from Cons.prems(3) Inr nz False have eo: "event_obeys ev s1"
          by simp
        from Cons.prems(2) False c1 have "covers s1 (data ev)"
          by simp
        note es = reactable_event_sound [OF g1 this eo]
        show ?thesis
        proof (cases "reactable_event ev s1")
          case (Inl e)
          with es Inr nz False show ?thesis
            by simp
        next
          case re: (Inr s2)
          with es have g2: "registry None s2" and c2: "\<forall>q. covers s1 q \<longrightarrow> covers s2 q"
            by simp_all
          from Cons.prems(2) c1 c2
          have cv: "\<forall>ev \<in> set evs. data ev \<noteq> nullptr \<longrightarrow> covers s2 (data ev)"
            by simp
          from Cons.prems(3) Inr nz False re have bo: "batch_obeys evs (tl css) t w s2"
            by simp
          from Cons.IH [OF g2 cv bo] Inr nz False re show ?thesis
            by simp
        qed
      qed
    qed
  qed
qed

lemma idle_check_sound:
  assumes "registry cur s"
  shows "case idle_check n t w s of
           Inl e \<Rightarrow> \<not> memory_fault e
         | Inr (t', w', s') \<Rightarrow> registry cur s' \<and> invalidation_list s' = invalidation_list s
                                 \<and> heap s' = heap s \<and> kern s' = kern s \<and> epoll_fd s' = epoll_fd s"
proof (cases "w \<and> n = 0")
  case False
  with assms show ?thesis
    by (auto simp: idle_check_def)
next
  case True
  show ?thesis
  proof (cases "idle_promise s")
    case None
    with True show ?thesis
      by (simp add: idle_check_def memory_fault_def)
  next
    case (Some i)
    with registry_idle [OF assms] have i: "i < length (promises s)"
      by simp
    show ?thesis
    proof (cases "promises s ! i")
      case p: True
      with True Some i show ?thesis
        by (simp add: idle_check_def set_value_def bnd_def memory_fault_def)
    next
      case p: False
      let ?s' = "s\<lparr>promises := (promises s)[i := True], trace := trace s @ [Fulfilled i],
                   idle_promise := None\<rparr>"
      from True Some i p have "idle_check n t w s = Inr (- 1, False, ?s')"
        by (simp add: idle_check_def set_value_def bnd_def observe_def)
      moreover from assms have "registry cur ?s'"
        by (rule registry_same) simp_all
      ultimately show ?thesis
        by simp
    qed
  qed
qed

lemma deliver_data:
  assumes "deliver k x = Some ev"
  shows "\<exists>f ev0. interest k f = Some ev0 \<and> data ev = data ev0"
proof -
  obtain f cond where x: "x = (f, cond)" by (cases x)
  with assms obtain ev0 where "interest k f = Some ev0" "data ev = data ev0"
    by (auto simp: deliver_def Let_def split: if_splits option.splits)
  then show ?thesis by blast
qed

lemma epoll_wait_data:
  assumes "epoll_wait k epfd rdy = Inr batch" and "ev \<in> set batch"
  shows "\<exists>f ev0. interest k f = Some ev0 \<and> data ev = data ev0"
proof -
  from assms(1) have "batch = take kEpollMaxEvents (List.map_filter (deliver k) (first_reports rdy))"
    by (auto simp: epoll_wait_def split: if_splits)
  with assms(2) have "ev \<in> set (List.map_filter (deliver k) (first_reports rdy))"
    by (auto dest: in_set_takeD)
  then obtain x where "deliver k x = Some ev"
    by (auto simp: map_filter_def)
  then show ?thesis
    by (rule deliver_data)
qed

lemma epoll_wait_covers:
  assumes "registry cur s" and "epoll_wait (kern s) epfd rdy = Inr batch"
  shows "\<forall>ev \<in> set batch. data ev \<noteq> nullptr \<longrightarrow> covers s (data ev)"
proof (intro ballI impI)
  fix ev
  assume "ev \<in> set batch" and n: "data ev \<noteq> nullptr"
  with epoll_wait_data [OF assms(2)] obtain f ev0 where
    "interest (kern s) f = Some ev0" "data ev = data ev0"
    by blast
  with registry_watched [OF assms(1), of f ev0] n show "covers s (data ev)"
    by (auto simp: covers_def)
qed

lemma dispatch_loop_sound:
  "registry None s \<Longrightarrow> loop_obeys script t w s \<Longrightarrow>
     (case dispatch_loop script t w s of
        Crashed e \<Rightarrow> \<not> memory_fault e
      | Returned s' \<Rightarrow> registry None s'
      | Blocked s' \<Rightarrow> registry None s')"
proof (induction script arbitrary: t w s)
  case Nil
  then show ?case by simp
next
  case (Cons p ps)
  from Cons.prems(2) have o0: "calls_obey (before_clear p) s"
    by simp
  show ?case
  proof (cases "run_calls (before_clear p) s")
    case (Inl e)
    with run_calls_sound [OF o0 Cons.prems(1)] show ?thesis
      by simp
  next
    case (Inr s0)
    with run_calls_sound [OF o0 Cons.prems(1)] have "registry None s0"
      by simp
    then have g0: "registry None (s0\<lparr>invalidation_list := []\<rparr>)"
      unfolding registry_def by auto
    from Cons.prems(2) Inr have o1: "calls_obey (during_wait p) (s0\<lparr>invalidation_list := []\<rparr>)"
      by simp
    show ?thesis
    proof (cases "run_calls (during_wait p) (s0\<lparr>invalidation_list := []\<rparr>)")
      case (Inl e)
      with run_calls_sound [OF o1 g0] Inr show ?thesis
        by simp
    next
      case s1: (Inr s1)
      with run_calls_sound [OF o1 g0] have g1: "registry None s1"
        by simp
      show ?thesis
      proof (cases "epoll_wait (kern s1) (epoll_fd s1) (ready p)")
        case (Inl e)
        with Inr s1 show ?thesis by (simp add: memory_fault_def)
      next
        case ew: (Inr batch)
        note cv1 = epoll_wait_covers [OF g1 ew]
        show ?thesis
        proof (cases "batch = [] \<and> t < 0")
          case True
          with Inr s1 ew g1 show ?thesis by auto
        next
          case nb: False
          note ic = idle_check_sound [OF g1, of "length batch" t w]
          show ?thesis
          proof (cases "idle_check (length batch) t w s1")
            case (Inl e)
            with ic Inr s1 ew nb show ?thesis by auto
          next
            case i: (Inr x)
            obtain t1 w1 s2 where x: "x = (t1, w1, s2)" by (cases x)
            with ic i have g2: "registry None s2"
              and same: "invalidation_list s2 = invalidation_list s1" "heap s2 = heap s1"
              by simp_all
            from cv1 same have cv2: "\<forall>ev \<in> set batch. data ev \<noteq> nullptr \<longrightarrow> covers s2 (data ev)"
              by (simp add: covers_def)
            from Cons.prems(2) Inr s1 ew nb i x
            have bo: "batch_obeys batch (between p) t1 w1 s2"
              by auto
            note pbs = process_batch_sound [OF g2 cv2 bo]
            show ?thesis
            proof (cases "process_batch batch (between p) t1 w1 s2")
              case (Inl e)
              with pbs Inr s1 ew nb i x show ?thesis by auto
            next
              case pb: (Inr l)
              show ?thesis
              proof (cases l)
                case (Stopped s3)
                with pbs pb Inr s1 ew nb i x show ?thesis
                  by auto
              next
                case (Running t2 w2 s3)
                with Inr s1 ew nb i x pb
                have d: "dispatch_loop (p # ps) t w s = dispatch_loop ps t2 w2 s3"
                  by auto
                from pbs pb Running have g3: "registry None s3"
                  by simp
                from Cons.prems(2) Inr s1 ew nb i x pb Running
                have lo: "loop_obeys ps t2 w2 s3"
                  by auto
                from Cons.IH [OF g3 lo] d show ?thesis
                  by simp
              qed
            qed
          qed
        qed
      qed
    qed
  qed
qed

lemma Run_sound:
  assumes "registry None s" and "Run_obeys script s"
  shows "Run script s \<noteq> Crashed UseAfterFree \<and> Run script s \<noteq> Crashed DoubleFree
       \<and> (Run script s = Returned s' \<or> Run script s = Blocked s' \<longrightarrow> registry None s')"
proof (cases "is_running s")
  case True
  then show ?thesis by (simp add: Run_def)
next
  case False
  from assms(1) have "registry None (s\<lparr>is_running := True\<rparr>)"
    by (simp add: registry_cong [of "s\<lparr>is_running := True\<rparr>" s])
  from dispatch_loop_sound [OF this, of script "- 1" False] assms(2) False
  show ?thesis
    by (auto simp: Run_def Run_obeys_def memory_fault_def split: outcome.splits)
qed

lemma Reactor_new_registry: "Reactor_new epfd cfd fds = Inr s \<Longrightarrow> registry None s"
  by (auto simp: Reactor_new_def epoll_ctl_def registry_def split: if_splits sum.splits)

text \<open>The definitions of the contract that a concrete run unfolds besides.\<close>

lemmas obey_defs =
  Run_obeys_def event_obeys_def read_obeys_def write_obeys_def

subsection \<open>Destruction, once\<close>

text \<open>
  C3, as the claim states it, fails for a reactable with both closures whose event
  signals both directions and whose read closure calls \<^verbatim>\<open>Unregister\<close> on it.  When
  the read callback has returned, \<open>removed\<close> is set and the promise is armed, but the
  loop does not destroy the reactable: it goes on to invoke the write callback of the
  same reactable (lines 188--190), and fulfils the promise and destroys the reactable
  only after that.
\<close>

theorem deferred_destruction_counterexample:
  "on_read_ready self_unregistering = Some [CallUnregister 1]
   \<and> read_callback (EPOLLIN OR EPOLLOUT) 1
        (both_ways\<lparr>heap := [1 \<mapsto> self_unregistering\<lparr>is_executing := True\<rparr>]\<rparr>)
     = Inr (fresh_reactor
             \<lparr>invalidation_list := [1], executing_reactable_finished := Some 0,
              heap := [1 \<mapsto> self_unregistering\<lparr>is_executing := True, removed := True,
                                                finished_promise := Some 0\<rparr>],
              promises := [False], trace := [Allocated 1, ReadCallback 1]\<rparr>)
   \<and> write_callback (EPOLLIN OR EPOLLOUT) 1
        (fresh_reactor
             \<lparr>invalidation_list := [1], executing_reactable_finished := Some 0,
              heap := [1 \<mapsto> self_unregistering\<lparr>is_executing := True, removed := True,
                                                finished_promise := Some 0\<rparr>],
              promises := [False], trace := [Allocated 1, ReadCallback 1]\<rparr>)
     = Inr (fresh_reactor
             \<lparr>invalidation_list := [1], executing_reactable_finished := Some 0,
              heap := [1 \<mapsto> self_unregistering\<lparr>is_executing := True, removed := True,
                                                finished_promise := Some 0\<rparr>],
              promises := [False], trace := [Allocated 1, ReadCallback 1, WriteCallback 1]\<rparr>)
   \<and> reactable_event \<lparr>events = EPOLLIN OR EPOLLOUT, data = 1\<rparr> both_ways
     = Inr (fresh_reactor
             \<lparr>invalidation_list := [1], executing_reactable_finished := Some 0,
              promises := [True],
              trace := [Allocated 1, ReadCallback 1, WriteCallback 1, Fulfilled 0, Destroyed 1]\<rparr>)"
  by (simp add: both_ways_def self_unregistering_def eval_defs)

text \<open>
  C3, amended.  \<^verbatim>\<open>Unregister\<close> of a live reactable that is not executing destroys it
  before returning and leaves the executing-finished slot alone.  \<^verbatim>\<open>Unregister\<close> of a
  reactable that is executing sets \<open>removed\<close>, arms a new promise, stores it in the
  executing-finished slot and returns without destroying.  When the callbacks of the
  event have returned (lines 191--199) the loop clears \<open>is_executing\<close>; it then
  destroys the reactable iff \<open>removed\<close> is set, fulfilling the promise first, and
  otherwise leaves it live and unchanged.  So an event during whose read or write
  callback \<^verbatim>\<open>Unregister\<close> is called on its own reactable ends with the fulfilment
  followed by the one destruction of that reactable, and before these the event invokes
  no callback but the read and the write callback of that reactable.  When it is the
  read callback that unregisters and the write callback is due as well, the event is
  the read callback, the write callback, the fulfilment and the destruction, in this
  order, with no callback and no destruction of that reactable in between.  An event
  whose closures do not unregister its reactable leaves the reactable live.

  A reactable is not destroyed twice.  A deletion is that of a live reactable or a fault:
  \<^verbatim>\<open>Run\<close> never ends in the deletion of a reactable that is not live, and in a run
  that gets through its script, between two destructions at one address there is an
  allocation at that address, whatever closures and other threads do.  That the code
  does not touch a destroyed reactable before that, which in C++ could destroy it
  again, needs the callers to keep their side of the contract (\<open>obeys\<close>,
  \<open>Run_obeys\<close>).  The bookkeeping \<open>registry\<close> holds of a new reactor; a call that keeps
  the contract keeps it and neither uses nor deletes a destroyed reactable; and a run
  that keeps the contract keeps it and does not end in a use after free.
\<close>

theorem Unregister_destroys_once:
  "(heap s p = Some r \<and> \<not> is_executing r \<and> Unregister p s = Inr s' \<longrightarrow>
      heap s' = (heap s)(p := None)
      \<and> (trace s' = trace s @ [Destroyed p]
         \<or> trace s' = trace s @ [Logged InvalidOrUnregistered, Destroyed p])
      \<and> executing_reactable_finished s' = executing_reactable_finished s)
   \<and> (heap s p = Some r \<and> is_executing r \<and> Unregister p s = Inr s' \<longrightarrow>
        heap s' = (heap s)(p \<mapsto> r\<lparr>removed := True, finished_promise := Some (length (promises s))\<rparr>)
        \<and> promises s' = promises s @ [False]
        \<and> executing_reactable_finished s' = Some (length (promises s))
        \<and> (trace s' = trace s \<or> trace s' = trace s @ [Logged InvalidOrUnregistered]))
   \<and> (heap s p = Some r \<and> removed r \<and> finish_event p s = Inr s' \<longrightarrow>
        (\<exists>i. finished_promise r = Some i \<and> trace s' = trace s @ [Fulfilled i, Destroyed p]
            \<and> heap s' = (heap s)(p := None) \<and> promises s' = (promises s)[i := True]))
   \<and> (heap s p = Some r \<and> \<not> removed r \<longrightarrow>
        finish_event p s = Inr (s\<lparr>heap := (heap s)(p \<mapsto> r\<lparr>is_executing := False\<rparr>)\<rparr>))
   \<and> (reactable_event ev s = Inr s' \<and> data ev = p \<and> heap s p = Some r
        \<and> p \<notin> set (invalidation_list s)
        \<and> ((events ev AND (EPOLLIN OR EPOLLHUP OR EPOLLRDHUP OR EPOLLERR) \<noteq> 0
               \<and> on_read_ready r = Some body)
            \<or> (events ev AND EPOLLOUT \<noteq> 0 \<and> on_write_ready r = Some body))
        \<and> (\<exists>c \<in> set body. unregisters p c) \<longrightarrow>
        heap s' p = None
        \<and> (\<exists>i t. trace s' = trace s @ t @ [Fulfilled i, Destroyed p] \<and> Destroyed p \<notin> set t
               \<and> (\<forall>x \<in> set t. is_callback x \<longrightarrow> x = ReadCallback p \<or> x = WriteCallback p)))
   \<and> (reactable_event ev s = Inr s' \<and> data ev = p \<and> heap s p = Some r
        \<and> p \<notin> set (invalidation_list s)
        \<and> events ev AND (EPOLLIN OR EPOLLHUP OR EPOLLRDHUP OR EPOLLERR) \<noteq> 0
        \<and> on_read_ready r = Some rbody \<and> (\<exists>c \<in> set rbody. unregisters p c)
        \<and> events ev AND EPOLLOUT \<noteq> 0 \<and> on_write_ready r = Some wbody \<longrightarrow>
        (\<exists>t1 t2 i. trace s' = trace s @ ReadCallback p # t1 @ WriteCallback p # t2
                          @ [Fulfilled i, Destroyed p]
            \<and> (\<forall>x \<in> set t1 \<union> set t2. \<not> is_callback x \<and> x \<noteq> Destroyed p)))
   \<and> (reactable_event ev s = Inr s' \<and> data ev = p \<and> heap s p = Some r \<and> \<not> removed r
        \<and> p \<notin> set (invalidation_list s)
        \<and> (\<forall>body. (events ev AND (EPOLLIN OR EPOLLHUP OR EPOLLRDHUP OR EPOLLERR) \<noteq> 0
                       \<and> on_read_ready r = Some body)
                    \<or> (events ev AND EPOLLOUT \<noteq> 0 \<and> on_write_ready r = Some body) \<longrightarrow>
                    (\<forall>c \<in> set body. \<not> unregisters p c)) \<longrightarrow>
        heap s' p = Some (r\<lparr>is_executing := False\<rparr>)
        \<and> Destroyed p \<notin> set (drop (length (trace s)) (trace s')))
   \<and> Run script s \<noteq> Crashed DoubleFree
   \<and> ((Run script s = Returned s' \<or> Run script s = Blocked s')
        \<and> trace s' = trace s @ t1 @ Destroyed q # t2 @ Destroyed q # t3 \<longrightarrow>
        Allocated q \<in> set t2)
   \<and> (Reactor_new epfd cfd fds = Inr s \<longrightarrow> registry None s)
   \<and> (registry None s \<and> obeys c s \<longrightarrow>
        exec_call c s \<noteq> Inl UseAfterFree \<and> exec_call c s \<noteq> Inl DoubleFree
        \<and> (exec_call c s = Inr s' \<longrightarrow> registry None s'))
   \<and> (registry None s \<and> Run_obeys script s \<longrightarrow>
        Run script s \<noteq> Crashed UseAfterFree
        \<and> (Run script s = Returned s' \<or> Run script s = Blocked s' \<longrightarrow> registry None s'))"
proof (intro conjI impI)
  assume "heap s p = Some r \<and> \<not> is_executing r \<and> Unregister p s = Inr s'"
  then have a: "heap s p = Some r" "\<not> is_executing r" "Unregister p s = Inr s'"
    by simp_all
  from Unregister_immediate [OF a]
  show "heap s' = (heap s)(p := None)"
    and "trace s' = trace s @ [Destroyed p]
         \<or> trace s' = trace s @ [Logged InvalidOrUnregistered, Destroyed p]"
    and "executing_reactable_finished s' = executing_reactable_finished s"
    by simp_all
next
  assume "heap s p = Some r \<and> is_executing r \<and> Unregister p s = Inr s'"
  then have a: "heap s p = Some r" "is_executing r" "Unregister p s = Inr s'"
    by simp_all
  from Unregister_deferred [OF a]
  show "heap s' = (heap s)(p \<mapsto> r\<lparr>removed := True, finished_promise := Some (length (promises s))\<rparr>)"
    and "promises s' = promises s @ [False]"
    and "executing_reactable_finished s' = Some (length (promises s))"
    and "trace s' = trace s \<or> trace s' = trace s @ [Logged InvalidOrUnregistered]"
    by simp_all
next
  assume "heap s p = Some r \<and> removed r \<and> finish_event p s = Inr s'"
  then have a: "heap s p = Some r" "removed r" "finish_event p s = Inr s'"
    by simp_all
  from finish_event_removed [OF a]
  show "\<exists>i. finished_promise r = Some i \<and> trace s' = trace s @ [Fulfilled i, Destroyed p]
            \<and> heap s' = (heap s)(p := None) \<and> promises s' = (promises s)[i := True]" .
next
  assume "heap s p = Some r \<and> \<not> removed r"
  then show "finish_event p s = Inr (s\<lparr>heap := (heap s)(p \<mapsto> r\<lparr>is_executing := False\<rparr>)\<rparr>)"
    by (simp add: finish_event_not_removed)
next
  assume a: "reactable_event ev s = Inr s' \<and> data ev = p \<and> heap s p = Some r
        \<and> p \<notin> set (invalidation_list s)
        \<and> ((events ev AND (EPOLLIN OR EPOLLHUP OR EPOLLRDHUP OR EPOLLERR) \<noteq> 0
               \<and> on_read_ready r = Some body)
            \<or> (events ev AND EPOLLOUT \<noteq> 0 \<and> on_write_ready r = Some body))
        \<and> (\<exists>c \<in> set body. unregisters p c)"
  then have "heap s' (data ev) = None
       \<and> (\<exists>i t. trace s' = trace s @ t @ [Fulfilled i, Destroyed (data ev)]
              \<and> Destroyed (data ev) \<notin> set t)"
    by (intro unregistered_in_callback [of ev s s' r body]) simp_all
  with a obtain i t where h: "heap s' p = None"
    and t: "trace s' = trace s @ t @ [Fulfilled i, Destroyed p]" "Destroyed p \<notin> set t"
    by auto
  from h show "heap s' p = None" .
  have "\<forall>x \<in> set t. is_callback x \<longrightarrow> x = ReadCallback p \<or> x = WriteCallback p"
  proof (intro ballI impI)
    fix x
    assume "x \<in> set t" and c: "is_callback x"
    with t(1) have "x \<in> set (drop (length (trace s)) (trace s'))"
      by simp
    from reactable_event_callbacks [OF conjunct1 [OF a] this c] a
    show "x = ReadCallback p \<or> x = WriteCallback p"
      by simp
  qed
  with t show "\<exists>i t. trace s' = trace s @ t @ [Fulfilled i, Destroyed p] \<and> Destroyed p \<notin> set t
               \<and> (\<forall>x \<in> set t. is_callback x \<longrightarrow> x = ReadCallback p \<or> x = WriteCallback p)"
    by blast
next
  assume a: "reactable_event ev s = Inr s' \<and> data ev = p \<and> heap s p = Some r
        \<and> p \<notin> set (invalidation_list s)
        \<and> events ev AND (EPOLLIN OR EPOLLHUP OR EPOLLRDHUP OR EPOLLERR) \<noteq> 0
        \<and> on_read_ready r = Some rbody \<and> (\<exists>c \<in> set rbody. unregisters p c)
        \<and> events ev AND EPOLLOUT \<noteq> 0 \<and> on_write_ready r = Some wbody"
  then have "\<exists>t1 t2 i. trace s' = trace s @ ReadCallback (data ev) # t1
                        @ WriteCallback (data ev) # t2 @ [Fulfilled i, Destroyed (data ev)]
           \<and> (\<forall>x \<in> set t1 \<union> set t2. \<not> is_callback x \<and> x \<noteq> Destroyed (data ev))"
    by (intro unregistered_then_write [of ev s s' r rbody wbody]) simp_all
  with a show "\<exists>t1 t2 i. trace s' = trace s @ ReadCallback p # t1 @ WriteCallback p # t2
                          @ [Fulfilled i, Destroyed p]
            \<and> (\<forall>x \<in> set t1 \<union> set t2. \<not> is_callback x \<and> x \<noteq> Destroyed p)"
    by simp
next
  assume a: "reactable_event ev s = Inr s' \<and> data ev = p \<and> heap s p = Some r \<and> \<not> removed r
        \<and> p \<notin> set (invalidation_list s)
        \<and> (\<forall>body. (events ev AND (EPOLLIN OR EPOLLHUP OR EPOLLRDHUP OR EPOLLERR) \<noteq> 0
                       \<and> on_read_ready r = Some body)
                    \<or> (events ev AND EPOLLOUT \<noteq> 0 \<and> on_write_ready r = Some body) \<longrightarrow>
                    (\<forall>c \<in> set body. \<not> unregisters p c))"
  then have "heap s' (data ev) = Some (r\<lparr>is_executing := False\<rparr>)
       \<and> Destroyed (data ev) \<notin> set (drop (length (trace s)) (trace s'))"
    by (intro untouched_event [of ev s s' r]) simp_all
  with a show "heap s' p = Some (r\<lparr>is_executing := False\<rparr>)"
    and "Destroyed p \<notin> set (drop (length (trace s)) (trace s'))"
    by simp_all
next
  show "Run script s \<noteq> Crashed DoubleFree"
    by (rule Run_no_double_free)
next
  assume a: "(Run script s = Returned s' \<or> Run script s = Blocked s')
        \<and> trace s' = trace s @ t1 @ Destroyed q # t2 @ Destroyed q # t3"
  then have "lifecycle s s'"
    by (blast intro: Run_lifecycle)
  with a have "live_after q (t1 @ Destroyed q # t2 @ Destroyed q # t3) (heap s q \<noteq> None)
      = Some (heap s' q \<noteq> None)"
    by (auto simp: lifecycle_def)
  then show "Allocated q \<in> set t2"
    by (rule allocation_between)
next
  assume "Reactor_new epfd cfd fds = Inr s"
  then show "registry None s"
    by (rule Reactor_new_registry)
next
  assume a: "registry None s \<and> obeys c s"
  then show "exec_call c s \<noteq> Inl UseAfterFree" and "exec_call c s \<noteq> Inl DoubleFree"
    by (auto simp: memory_fault_def dest: exec_call_safe)
  from a show "exec_call c s = Inr s' \<Longrightarrow> registry None s'"
    by (blast intro: exec_call_registry)
next
  assume a: "registry None s \<and> Run_obeys script s"
  then have "Run script s \<noteq> Crashed UseAfterFree \<and> Run script s \<noteq> Crashed DoubleFree
       \<and> (Run script s = Returned s' \<or> Run script s = Blocked s' \<longrightarrow> registry None s')"
    by (intro Run_sound) simp_all
  then show "Run script s \<noteq> Crashed UseAfterFree"
    and "Run script s = Returned s' \<or> Run script s = Blocked s' \<Longrightarrow> registry None s'"
    by simp_all
qed

text \<open>
  An immediate destruction in \<open>reactor_with_reader\<close>; a deferred one, followed by the end
  of the event; the end of an event nobody unregistered; the self-unregistering event of
  \<open>both_ways\<close>; an event of \<open>reactor_with_reader\<close>, which stays; a run in which address
  1 is destroyed, allocated and destroyed again; and the bookkeeping along two runs that
  keep the contract.
\<close>

theorem Unregister_destroys_once_witness:
  "(\<exists>s'. Unregister 1 reactor_with_reader = Inr s'
       \<and> heap s' = (heap reactor_with_reader)(1 := None))
   \<and> (\<exists>s'. Unregister 1 (both_ways\<lparr>heap := [1 \<mapsto> self_unregistering\<lparr>is_executing := True\<rparr>]\<rparr>)
            = Inr s'
         \<and> heap s' 1 = Some (self_unregistering\<lparr>is_executing := True, removed := True,
                                                  finished_promise := Some 0\<rparr>)
         \<and> promises s' = [False] \<and> executing_reactable_finished s' = Some 0
         \<and> (\<exists>s'' i. finish_event 1 s' = Inr s'' \<and> heap s'' 1 = None
               \<and> trace s'' = trace s' @ [Fulfilled i, Destroyed 1]))
   \<and> finish_event 1 reactor_with_reader = Inr reactor_with_reader
   \<and> (\<exists>s' i t. reactable_event \<lparr>events = EPOLLIN OR EPOLLOUT, data = 1\<rparr> both_ways = Inr s'
         \<and> heap s' 1 = None
         \<and> trace s' = trace both_ways @ t @ [Fulfilled i, Destroyed 1] \<and> Destroyed 1 \<notin> set t
         \<and> (\<forall>x \<in> set t. is_callback x \<longrightarrow> x = ReadCallback 1 \<or> x = WriteCallback 1))
   \<and> (\<exists>s' t1 t2 i. reactable_event \<lparr>events = EPOLLIN OR EPOLLOUT, data = 1\<rparr> both_ways = Inr s'
         \<and> trace s' = trace both_ways @ ReadCallback 1 # t1 @ WriteCallback 1 # t2
                          @ [Fulfilled i, Destroyed 1])
   \<and> (\<exists>s'. reactable_event \<lparr>events = EPOLLIN, data = 1\<rparr> reactor_with_reader = Inr s'
         \<and> heap s' 1 = Some reader5
         \<and> Destroyed 1 \<notin> set (drop (length (trace reactor_with_reader)) (trace s')))
   \<and> (\<exists>s'. Run [reused_address] reactor_with_reader = Blocked s'
         \<and> trace s' = trace reactor_with_reader @ [] @ Destroyed 1 # [Allocated 1] @ Destroyed 1 # []
         \<and> Allocated 1 \<in> set [Allocated 1])
   \<and> registry None fresh_reactor
   \<and> registry None reactor_with_reader
   \<and> Run_obeys [unregister_before_entry] reactor_with_reader
   \<and> Run [unregister_before_entry] reactor_with_reader \<noteq> Crashed UseAfterFree
   \<and> registry None both_ways \<and> Run_obeys [both_ready] both_ways
   \<and> (\<exists>s'. Run [both_ready] both_ways = Blocked s' \<and> registry None s')"
proof -
  let ?executing = "both_ways\<lparr>heap := [1 \<mapsto> self_unregistering\<lparr>is_executing := True\<rparr>]\<rparr>"
  let ?r = "self_unregistering\<lparr>is_executing := True\<rparr>"
  let ?r' = "self_unregistering\<lparr>is_executing := True, removed := True,
                                 finished_promise := Some 0\<rparr>"
  obtain s1 where u1: "Unregister 1 reactor_with_reader = Inr s1"
    by (simp add: eval_defs)
  have h: "heap reactor_with_reader 1 = Some reader5" "\<not> is_executing reader5"
    "\<not> removed reader5"
    by (simp_all add: reactor_with_reader_def reader5_def)
  from Unregister_destroys_once
      [where s = reactor_with_reader and p = 1 and r = reader5 and s' = s1,
       THEN conjunct1] u1 h
  have a1: "heap s1 = (heap reactor_with_reader)(1 := None)"
    by simp
  obtain s2 where u2: "Unregister 1 ?executing = Inr s2"
    by (simp add: both_ways_def self_unregistering_def eval_defs)
  have h2: "heap ?executing 1 = Some ?r" "is_executing ?r" "promises ?executing = []"
    by (simp_all add: both_ways_def fresh_reactor_def)
  from Unregister_destroys_once
      [where s = ?executing and p = 1 and r = ?r and s' = s2,
       THEN conjunct2, THEN conjunct1] u2 h2
  have a2: "heap s2 1 = Some ?r'" "promises s2 = [False]"
    "executing_reactable_finished s2 = Some 0"
    by simp_all
  obtain s3 where f3: "finish_event 1 s2 = Inr s3"
    using a2
    by (simp add: finish_event_def set_value_def delete_reactable_def bnd_def observe_def Let_def)
  have "removed ?r'"
    by simp
  with Unregister_destroys_once
      [where s = s2 and p = 1 and r = ?r' and s' = s3,
       THEN conjunct2, THEN conjunct2, THEN conjunct1] f3 a2(1)
  have a3: "\<exists>i. trace s3 = trace s2 @ [Fulfilled i, Destroyed 1] \<and> heap s3 1 = None"
    by auto
  from Unregister_destroys_once
      [where s = reactor_with_reader and p = 1 and r = reader5,
       THEN conjunct2, THEN conjunct2, THEN conjunct2, THEN conjunct1] h
  have "finish_event 1 reactor_with_reader
      = Inr (reactor_with_reader\<lparr>heap := (heap reactor_with_reader)(1 \<mapsto>
               reader5\<lparr>is_executing := False\<rparr>)\<rparr>)"
    by simp
  then have f4: "finish_event 1 reactor_with_reader = Inr reactor_with_reader"
    by (simp add: reactor_with_reader_def reader5_def)
  obtain s5 where e: "reactable_event \<lparr>events = EPOLLIN OR EPOLLOUT, data = 1\<rparr> both_ways = Inr s5"
    using both_ways_event by blast
  have g: "heap both_ways 1 = Some self_unregistering"
    "1 \<notin> set (invalidation_list both_ways)"
    "on_read_ready self_unregistering = Some [CallUnregister 1]"
    "(EPOLLIN OR EPOLLOUT) AND (EPOLLIN OR EPOLLHUP OR EPOLLRDHUP OR EPOLLERR) \<noteq> (0 :: u32)"
    by (simp_all add: both_ways_def self_unregistering_def fresh_reactor_def EPOLLIN_def
        EPOLLOUT_def EPOLLHUP_def EPOLLRDHUP_def EPOLLERR_def)
  from Unregister_destroys_once
      [where s = both_ways and p = 1 and r = self_unregistering and s' = s5
         and ev = "\<lparr>events = EPOLLIN OR EPOLLOUT, data = 1\<rparr>" and body = "[CallUnregister 1]",
       THEN conjunct2, THEN conjunct2, THEN conjunct2, THEN conjunct2, THEN conjunct1] e g
  have a5: "heap s5 1 = None
        \<and> (\<exists>i t. trace s5 = trace both_ways @ t @ [Fulfilled i, Destroyed 1] \<and> Destroyed 1 \<notin> set t
               \<and> (\<forall>x \<in> set t. is_callback x \<longrightarrow> x = ReadCallback 1 \<or> x = WriteCallback 1))"
    by simp
  have g': "on_write_ready self_unregistering = Some []"
    "(EPOLLIN OR EPOLLOUT) AND EPOLLOUT \<noteq> (0 :: u32)"
    by (simp_all add: self_unregistering_def EPOLLIN_def EPOLLOUT_def)
  from Unregister_destroys_once
      [where s = both_ways and p = 1 and r = self_unregistering and s' = s5
         and ev = "\<lparr>events = EPOLLIN OR EPOLLOUT, data = 1\<rparr>" and rbody = "[CallUnregister 1]"
         and wbody = "[]",
       THEN conjunct2, THEN conjunct2, THEN conjunct2, THEN conjunct2, THEN conjunct2,
       THEN conjunct1] e g g'
  have a5': "\<exists>t1 t2 i. trace s5 = trace both_ways @ ReadCallback 1 # t1 @ WriteCallback 1 # t2
                          @ [Fulfilled i, Destroyed 1]"
    by auto
  obtain s6 where e6: "reactable_event \<lparr>events = EPOLLIN, data = 1\<rparr> reactor_with_reader = Inr s6"
    by (simp add: eval_defs)
  have g6: "1 \<notin> set (invalidation_list reactor_with_reader)"
    "on_read_ready reader5 = Some []" "on_write_ready reader5 = None"
    by (simp_all add: reactor_with_reader_def reader5_def fresh_reactor_def)
  from Unregister_destroys_once
      [where s = reactor_with_reader and p = 1 and r = reader5 and s' = s6
         and ev = "\<lparr>events = EPOLLIN, data = 1\<rparr>",
       THEN conjunct2, THEN conjunct2, THEN conjunct2, THEN conjunct2, THEN conjunct2,
       THEN conjunct2, THEN conjunct1] e6 h g6
  have "heap s6 1 = Some (reader5\<lparr>is_executing := False\<rparr>)
        \<and> Destroyed 1 \<notin> set (drop (length (trace reactor_with_reader)) (trace s6))"
    by simp
  then have a6: "heap s6 1 = Some reader5
        \<and> Destroyed 1 \<notin> set (drop (length (trace reactor_with_reader)) (trace s6))"
    by (simp add: reader5_def)
  obtain s7 where r7: "Run [reused_address] reactor_with_reader = Blocked s7"
    and t7: "trace s7 = trace reactor_with_reader @ [] @ Destroyed 1 # [Allocated 1] @ Destroyed 1 # []"
    by (simp add: reused_address_def Register_def register_events_def eval_defs fun_upd_twist)
  from Unregister_destroys_once
      [where s = reactor_with_reader and script = "[reused_address]" and s' = s7
         and ?t1.0 = "[]" and q = 1 and ?t2.0 = "[Allocated 1]" and ?t3.0 = "[]",
       THEN conjunct2, THEN conjunct2, THEN conjunct2, THEN conjunct2, THEN conjunct2,
       THEN conjunct2, THEN conjunct2, THEN conjunct2, THEN conjunct1] r7 t7
  have a7: "Allocated 1 \<in> set [Allocated 1]"
    by blast
  from Unregister_destroys_once
      [where s = fresh_reactor and epfd = 3 and cfd = 4 and fds = "{5}",
       THEN conjunct2, THEN conjunct2, THEN conjunct2, THEN conjunct2, THEN conjunct2,
       THEN conjunct2, THEN conjunct2, THEN conjunct2, THEN conjunct2, THEN conjunct1]
    fresh_reactor_built
  have r0: "registry None fresh_reactor"
    by simp
  have "obeys (CallRegister 5 (Some []) None 1) fresh_reactor"
    by simp
  moreover from reactor_with_reader_built
  have "exec_call (CallRegister 5 (Some []) None 1) fresh_reactor = Inr reactor_with_reader"
    by (simp add: bnd_def)
  ultimately have r1: "registry None reactor_with_reader"
    using Unregister_destroys_once
      [where s = fresh_reactor and c = "CallRegister 5 (Some []) None 1"
         and s' = reactor_with_reader,
       THEN conjunct2, THEN conjunct2, THEN conjunct2, THEN conjunct2, THEN conjunct2,
       THEN conjunct2, THEN conjunct2, THEN conjunct2, THEN conjunct2, THEN conjunct2,
       THEN conjunct1] r0
    by blast
  have "obeys (CallRegister 5 (Some [CallUnregister 1]) (Some []) 1) fresh_reactor"
    by simp
  moreover from both_ways_built
  have "exec_call (CallRegister 5 (Some [CallUnregister 1]) (Some []) 1) fresh_reactor
      = Inr both_ways"
    by (simp add: bnd_def)
  ultimately have r2: "registry None both_ways"
    using Unregister_destroys_once
      [where s = fresh_reactor
         and c = "CallRegister 5 (Some [CallUnregister 1]) (Some []) 1" and s' = both_ways,
       THEN conjunct2, THEN conjunct2, THEN conjunct2, THEN conjunct2, THEN conjunct2,
       THEN conjunct2, THEN conjunct2, THEN conjunct2, THEN conjunct2, THEN conjunct2,
       THEN conjunct1] r0
    by blast
  have o1: "Run_obeys [unregister_before_entry] reactor_with_reader"
    by (simp add: obey_defs unregister_before_entry_def eval_defs)
  from Unregister_destroys_once
      [where s = reactor_with_reader and script = "[unregister_before_entry]"
         and s' = reactor_with_reader,
       THEN conjunct2, THEN conjunct2, THEN conjunct2, THEN conjunct2, THEN conjunct2,
       THEN conjunct2, THEN conjunct2, THEN conjunct2, THEN conjunct2, THEN conjunct2,
       THEN conjunct2] r1 o1
  have f1: "Run [unregister_before_entry] reactor_with_reader \<noteq> Crashed UseAfterFree"
    by blast
  have o2: "Run_obeys [both_ready] both_ways"
    by (simp add: obey_defs both_ready_def both_ways_def self_unregistering_def eval_defs)
  obtain s8 where r8: "Run [both_ready] both_ways = Blocked s8"
    by (simp add: both_ready_def both_ways_def self_unregistering_def eval_defs)
  from Unregister_destroys_once
      [where s = both_ways and script = "[both_ready]" and s' = s8,
       THEN conjunct2, THEN conjunct2, THEN conjunct2, THEN conjunct2, THEN conjunct2,
       THEN conjunct2, THEN conjunct2, THEN conjunct2, THEN conjunct2, THEN conjunct2,
       THEN conjunct2] r2 o2 r8
  have f2: "registry None s8"
    by blast
  from u1 a1 have c1: "\<exists>s'. Unregister 1 reactor_with_reader = Inr s'
       \<and> heap s' = (heap reactor_with_reader)(1 := None)"
    by blast
  from u2 a2 f3 a3 have c2: "\<exists>s'. Unregister 1 ?executing = Inr s'
         \<and> heap s' 1 = Some ?r'
         \<and> promises s' = [False] \<and> executing_reactable_finished s' = Some 0
         \<and> (\<exists>s'' i. finish_event 1 s' = Inr s'' \<and> heap s'' 1 = None
               \<and> trace s'' = trace s' @ [Fulfilled i, Destroyed 1])"
    by blast
  from e a5 have c5: "\<exists>s' i t. reactable_event \<lparr>events = EPOLLIN OR EPOLLOUT, data = 1\<rparr> both_ways = Inr s'
         \<and> heap s' 1 = None
         \<and> trace s' = trace both_ways @ t @ [Fulfilled i, Destroyed 1] \<and> Destroyed 1 \<notin> set t
         \<and> (\<forall>x \<in> set t. is_callback x \<longrightarrow> x = ReadCallback 1 \<or> x = WriteCallback 1)"
    by blast
  from e a5' have c5': "\<exists>s' t1 t2 i. reactable_event \<lparr>events = EPOLLIN OR EPOLLOUT, data = 1\<rparr> both_ways = Inr s'
         \<and> trace s' = trace both_ways @ ReadCallback 1 # t1 @ WriteCallback 1 # t2
                          @ [Fulfilled i, Destroyed 1]"
    by blast
  from e6 a6 have c6: "\<exists>s'. reactable_event \<lparr>events = EPOLLIN, data = 1\<rparr> reactor_with_reader = Inr s'
         \<and> heap s' 1 = Some reader5
         \<and> Destroyed 1 \<notin> set (drop (length (trace reactor_with_reader)) (trace s'))"
    by blast
  from r7 t7 a7 have c7: "\<exists>s'. Run [reused_address] reactor_with_reader = Blocked s'
         \<and> trace s' = trace reactor_with_reader @ [] @ Destroyed 1 # [Allocated 1] @ Destroyed 1 # []
         \<and> Allocated 1 \<in> set [Allocated 1]"
    by blast
  from r8 f2 have c8: "\<exists>s'. Run [both_ready] both_ways = Blocked s' \<and> registry None s'"
    by blast
  from c1 c2 f4 c5 c5' c6 c7 r0 r1 o1 f1 r2 o2 c8 show ?thesis
    by (intro conjI)
qed

end
